theory Spec2Isabelle
  imports Main "HOL-Library.Word" "HOL-Library.Multiset" "HOL-Library.List_Lexorder"
begin

section \<open>JavaScript strings\<close>

text \<open>
  A JavaScript string is a sequence of 16-bit code units. String literals of the source are
  written with \<open>js\<close>, which maps every ASCII character to its code unit; literals with
  Chinese characters are spelled out as code units.
\<close>

type_synonym jschar = "16 word"
type_synonym jsstring = "jschar list"

definition js :: "string \<Rightarrow> jsstring" where
  "js s = map of_char s"

text \<open>\<open>s.startsWith(p)\<close>, \<open>s.endsWith(p)\<close> and \<open>s.includes(p)\<close>.\<close>

definition startsWith :: "jsstring \<Rightarrow> jsstring \<Rightarrow> bool" where
  "startsWith s p = (take (length p) s = p)"

definition endsWith :: "jsstring \<Rightarrow> jsstring \<Rightarrow> bool" where
  "endsWith s p = (length p \<le> length s \<and> drop (length s - length p) s = p)"

fun str_includes :: "jsstring \<Rightarrow> jsstring \<Rightarrow> bool" where
  "str_includes [] p = (p = [])"
| "str_includes (c # s) p = (startsWith (c # s) p \<or> str_includes s p)"

text \<open>\<open>s.replace(p, r)\<close> with a string pattern: only the first occurrence is replaced.\<close>

fun replace_first :: "jsstring \<Rightarrow> jsstring \<Rightarrow> jsstring \<Rightarrow> jsstring" where
  "replace_first [] p r = (if p = [] then r else [])"
| "replace_first (c # s) p r =
     (if startsWith (c # s) p then r @ drop (length p) (c # s) else c # replace_first s p r)"

text \<open>\<open>s.split(sep)\<close> for a separator of one code unit.\<close>

fun split_on :: "jschar \<Rightarrow> jsstring \<Rightarrow> jsstring list" where
  "split_on sep [] = [[]]"
| "split_on sep (c # s) =
     (if c = sep then [] # split_on sep s
      else (case split_on sep s of [] \<Rightarrow> [[c]] | l # ls \<Rightarrow> (c # l) # ls))"

text \<open>Decimal digits of a number, as \<open>String(n)\<close> prints an integer.\<close>

definition digit_char :: "nat \<Rightarrow> jschar" where
  "digit_char d = of_nat (48 + d)"

fun nat_digits :: "nat \<Rightarrow> jsstring" where
  "nat_digits n = (if n < 10 then [digit_char n] else nat_digits (n div 10) @ [digit_char (n mod 10)])"

declare nat_digits.simps [simp del]

definition int_to_string :: "int \<Rightarrow> jsstring" where
  "int_to_string i = (if i < 0 then js ''-'' @ nat_digits (nat (- i)) else nat_digits (nat i))"

definition is_digit :: "jschar \<Rightarrow> bool" where
  "is_digit c = (48 \<le> c \<and> c \<le> 57)"

definition digit_val :: "jschar \<Rightarrow> nat" where
  "digit_val c = unat c - 48"

definition digits_value :: "jsstring \<Rightarrow> nat" where
  "digits_value ds = foldl (\<lambda>acc c. 10 * acc + digit_val c) 0 ds"

text \<open>
  JavaScript numbers are IEEE doubles. The model keeps integers as \<open>int\<close>, which is exact
  for the safe integers (\<open>Number.isSafeInteger\<close>).
\<close>

definition is_safe_integer :: "int \<Rightarrow> bool" where
  "is_safe_integer i = (\<bar>i\<bar> \<le> 2 ^ 53 - 1)"

section \<open>JSON values, \<open>JSON.stringify\<close> and \<open>JSON.parse\<close>\<close>

text \<open>
  The values \<open>JSON.parse\<close> can return. An object is the list of its properties in the
  order JavaScript enumerates them: array-index keys first, in ascending numeric order,
  then the other keys in the order of their creation. A number written without fraction
  and exponent is kept as its integer value (\<open>JNum\<close>), any other number as the text of its
  literal (\<open>JDec\<close>): its double value is not computed.
\<close>

datatype json =
    JNull
  | JBool bool
  | JNum int
  | JDec jsstring
  | JStr jsstring
  | JArr "json list"
  | JObj "(jsstring \<times> json) list"

subsection \<open>\<open>JSON.stringify(value, null, 2)\<close>\<close>

definition is_high_surrogate :: "jschar \<Rightarrow> bool" where
  "is_high_surrogate c = (0xD800 \<le> c \<and> c \<le> 0xDBFF)"

definition is_low_surrogate :: "jschar \<Rightarrow> bool" where
  "is_low_surrogate c = (0xDC00 \<le> c \<and> c \<le> 0xDFFF)"

definition hex_char :: "nat \<Rightarrow> jschar" where
  "hex_char d = (if d < 10 then of_nat (48 + d) else of_nat (87 + d))"

text \<open>UnicodeEscape: a backslash, \<open>u\<close> and four lowercase hexadecimal digits.\<close>

definition unicode_escape :: "jschar \<Rightarrow> jsstring" where
  "unicode_escape c =
     [92, 117, hex_char (unat c div 4096), hex_char (unat c div 256 mod 16),
      hex_char (unat c div 16 mod 16), hex_char (unat c mod 16)]"

text \<open>
  QuoteJSONString, for one code unit that is not part of a surrogate pair: the
  two-character escapes, a Unicode escape for the other control characters and for a lone
  surrogate, the code unit itself otherwise.
\<close>

definition quote_unit :: "jschar \<Rightarrow> jsstring" where
  "quote_unit c =
     (if c = 8 then [92, 98]
      else if c = 9 then [92, 116]
      else if c = 10 then [92, 110]
      else if c = 12 then [92, 102]
      else if c = 13 then [92, 114]
      else if c = 34 then [92, 34]
      else if c = 92 then [92, 92]
      else if c < 32 \<or> is_high_surrogate c \<or> is_low_surrogate c then unicode_escape c
      else [c])"

fun quote_units :: "jsstring \<Rightarrow> jsstring" where
  "quote_units [] = []"
| "quote_units [c] = quote_unit c"
| "quote_units (c # d # s) =
     (if is_high_surrogate c \<and> is_low_surrogate d then c # d # quote_units s
      else quote_unit c @ quote_units (d # s))"

definition QuoteJSONString :: "jsstring \<Rightarrow> jsstring" where
  "QuoteJSONString s = 34 # quote_units s @ [34]"

definition spaces :: "nat \<Rightarrow> jsstring" where
  "spaces n = replicate n 32"

fun join_with :: "jsstring \<Rightarrow> jsstring list \<Rightarrow> jsstring" where
  "join_with sep [] = []"
| "join_with sep [x] = x"
| "join_with sep (x # y # ys) = x @ sep @ join_with sep (y # ys)"

text \<open>
  SerializeJSONProperty with a gap of two spaces; \<open>ind\<close> is the width of the current
  indentation. A number is printed as \<open>Number.prototype.toString\<close> prints an integer
  below \<open>10^21\<close>.
\<close>

fun serialize :: "nat \<Rightarrow> json \<Rightarrow> jsstring" where
  "serialize ind JNull = js ''null''"
| "serialize ind (JBool b) = (if b then js ''true'' else js ''false'')"
| "serialize ind (JNum i) = int_to_string i"
| "serialize ind (JDec lit) = lit"
| "serialize ind (JStr s) = QuoteJSONString s"
| "serialize ind (JArr vs) =
     (if vs = [] then js ''[]''
      else [91, 10] @ spaces (ind + 2)
           @ join_with ([44, 10] @ spaces (ind + 2)) (map (\<lambda>v. serialize (ind + 2) v) vs)
           @ [10] @ spaces ind @ [93])"
| "serialize ind (JObj kvs) =
     (if kvs = [] then js ''{}''
      else [123, 10] @ spaces (ind + 2)
           @ join_with ([44, 10] @ spaces (ind + 2))
               (map (\<lambda>kv. QuoteJSONString (fst kv) @ [58, 32] @ serialize (ind + 2) (snd kv)) kvs)
           @ [10] @ spaces ind @ [125])"

definition JSON_stringify :: "json \<Rightarrow> jsstring" where
  "JSON_stringify v = serialize 0 v"

subsection \<open>\<open>JSON.parse\<close>\<close>

definition is_json_ws :: "jschar \<Rightarrow> bool" where
  "is_json_ws c = (c = 32 \<or> c = 9 \<or> c = 10 \<or> c = 13)"

definition skip_ws :: "jsstring \<Rightarrow> jsstring" where
  "skip_ws s = dropWhile is_json_ws s"

definition hex_val :: "jschar \<Rightarrow> nat option" where
  "hex_val c =
     (if 48 \<le> c \<and> c \<le> 57 then Some (unat c - 48)
      else if 97 \<le> c \<and> c \<le> 102 then Some (unat c - 87)
      else if 65 \<le> c \<and> c \<le> 70 then Some (unat c - 55)
      else None)"

definition hex4 :: "jschar \<Rightarrow> jschar \<Rightarrow> jschar \<Rightarrow> jschar \<Rightarrow> jschar option" where
  "hex4 a b c d =
     (case (hex_val a, hex_val b, hex_val c, hex_val d) of
        (Some x, Some y, Some z, Some w) \<Rightarrow> Some (of_nat (4096 * x + 256 * y + 16 * z + w))
      | _ \<Rightarrow> None)"

definition unescape :: "jschar \<Rightarrow> jschar option" where
  "unescape e =
     (if e = 34 then Some 34
      else if e = 92 then Some 92
      else if e = 47 then Some 47
      else if e = 98 then Some 8
      else if e = 102 then Some 12
      else if e = 110 then Some 10
      else if e = 114 then Some 13
      else if e = 116 then Some 9
      else None)"

text \<open>
  The characters of a string literal after its opening quote: the string's value and the
  text after the closing quote.
\<close>

fun parse_chars :: "jsstring \<Rightarrow> (jsstring \<times> jsstring) option" where
  "parse_chars [] = None"
| "parse_chars (c # s) =
     (if c = 34 then Some ([], s)
      else if c = 92 then
        (case s of
           [] \<Rightarrow> None
         | e # s' \<Rightarrow>
             if e = 117 then
               (case s' of
                  h1 # h2 # h3 # h4 # s'' \<Rightarrow>
                    (case hex4 h1 h2 h3 h4 of
                       None \<Rightarrow> None
                     | Some u \<Rightarrow>
                         (case parse_chars s'' of
                            None \<Rightarrow> None
                          | Some (v, r) \<Rightarrow> Some (u # v, r)))
                | _ \<Rightarrow> None)
             else
               (case unescape e of
                  None \<Rightarrow> None
                | Some ch \<Rightarrow>
                    (case parse_chars s' of
                       None \<Rightarrow> None
                     | Some (v, r) \<Rightarrow> Some (ch # v, r))))
      else if c < 32 then None
      else (case parse_chars s of None \<Rightarrow> None | Some (v, r) \<Rightarrow> Some (c # v, r)))"

text \<open>
  A number literal: an optional minus sign, \<open>0\<close> or a digit sequence without leading zero,
  an optional fraction and an optional exponent.
\<close>

definition parse_int_part :: "jsstring \<Rightarrow> (jsstring \<times> jsstring) option" where
  "parse_int_part s =
     (case s of
        [] \<Rightarrow> None
      | c # r \<Rightarrow>
          if c = 48 then Some ([c], r)
          else if is_digit c then Some (takeWhile is_digit s, dropWhile is_digit s)
          else None)"

definition parse_frac :: "jsstring \<Rightarrow> (jsstring \<times> jsstring) option" where
  "parse_frac s =
     (case s of
        [] \<Rightarrow> Some ([], s)
      | c # r \<Rightarrow>
          if c = 46 then
            (if takeWhile is_digit r = [] then None
             else Some (c # takeWhile is_digit r, dropWhile is_digit r))
          else Some ([], s))"

definition parse_exp :: "jsstring \<Rightarrow> (jsstring \<times> jsstring) option" where
  "parse_exp s =
     (case s of
        [] \<Rightarrow> Some ([], s)
      | c # r \<Rightarrow>
          if c = 101 \<or> c = 69 then
            (let sg = (case r of [] \<Rightarrow> [] | g # r' \<Rightarrow> if g = 43 \<or> g = 45 then [g] else []);
                 r1 = drop (length sg) r
             in if takeWhile is_digit r1 = [] then None
                else Some (c # sg @ takeWhile is_digit r1, dropWhile is_digit r1))
          else Some ([], s))"

definition parse_number :: "jsstring \<Rightarrow> (json \<times> jsstring) option" where
  "parse_number s =
     (let neg = (case s of [] \<Rightarrow> False | c # r \<Rightarrow> c = 45);
          s1 = (if neg then tl s else s)
      in case parse_int_part s1 of
           None \<Rightarrow> None
         | Some (ds, s2) \<Rightarrow>
             (case parse_frac s2 of
                None \<Rightarrow> None
              | Some (fr, s3) \<Rightarrow>
                  (case parse_exp s3 of
                     None \<Rightarrow> None
                   | Some (ex, s4) \<Rightarrow>
                       if fr = [] \<and> ex = [] then
                         Some (JNum (if neg then - int (digits_value ds) else int (digits_value ds)), s4)
                       else Some (JDec ((if neg then [45] else []) @ ds @ fr @ ex), s4))))"

text \<open>
  Defining a property on the object under construction. A key that is already there keeps
  its place and takes the new value; a new array-index key goes before the first key that
  is no array index or a greater one; any other new key goes last.
\<close>

definition is_array_index :: "jsstring \<Rightarrow> bool" where
  "is_array_index k =
     (k \<noteq> [] \<and> list_all is_digit k \<and> (k = [48] \<or> hd k \<noteq> 48) \<and> digits_value k < 4294967295)"

fun obj_put :: "jsstring \<Rightarrow> json \<Rightarrow> (jsstring \<times> json) list \<Rightarrow> (jsstring \<times> json) list" where
  "obj_put k v [] = [(k, v)]"
| "obj_put k v ((k', v') # kvs) =
     (if k' = k then (k, v) # kvs
      else if is_array_index k \<and> (\<not> is_array_index k' \<or> digits_value k < digits_value k')
        then (k, v) # (k', v') # kvs
      else (k', v') # obj_put k v kvs)"

text \<open>
  The parser proper. Its first argument bounds the number of nested calls; \<open>JSON_parse\<close>
  starts it with twice the length of the text plus two. The bound is no restriction: a text
  that the parser accepts with any bound is accepted with this one, as \<open>JSON_parse_complete\<close>
  shows below.
\<close>

fun parse_value :: "nat \<Rightarrow> jsstring \<Rightarrow> (json \<times> jsstring) option"
  and parse_elements :: "nat \<Rightarrow> jsstring \<Rightarrow> (json list \<times> jsstring) option"
  and parse_members ::
    "nat \<Rightarrow> (jsstring \<times> json) list \<Rightarrow> jsstring \<Rightarrow> ((jsstring \<times> json) list \<times> jsstring) option"
where
  "parse_value 0 s = None"
| "parse_value (Suc n) s =
     (case skip_ws s of
        [] \<Rightarrow> None
      | c # r \<Rightarrow>
          if c = 91 then
            (case skip_ws r of
               [] \<Rightarrow> None
             | c' # r' \<Rightarrow>
                 if c' = 93 then Some (JArr [], r')
                 else (case parse_elements n r of
                         None \<Rightarrow> None
                       | Some (vs, r'') \<Rightarrow> Some (JArr vs, r'')))
          else if c = 123 then
            (case skip_ws r of
               [] \<Rightarrow> None
             | c' # r' \<Rightarrow>
                 if c' = 125 then Some (JObj [], r')
                 else (case parse_members n [] r of
                         None \<Rightarrow> None
                       | Some (kvs, r'') \<Rightarrow> Some (JObj kvs, r'')))
          else if c = 34 then
            (case parse_chars r of None \<Rightarrow> None | Some (str, r') \<Rightarrow> Some (JStr str, r'))
          else if c = 45 \<or> is_digit c then parse_number (c # r)
          else if startsWith (c # r) (js ''true'') then Some (JBool True, drop 4 (c # r))
          else if startsWith (c # r) (js ''false'') then Some (JBool False, drop 5 (c # r))
          else if startsWith (c # r) (js ''null'') then Some (JNull, drop 4 (c # r))
          else None)"
| "parse_elements 0 s = None"
| "parse_elements (Suc n) s =
     (case parse_value n s of
        None \<Rightarrow> None
      | Some (v, r) \<Rightarrow>
          (case skip_ws r of
             [] \<Rightarrow> None
           | c # r' \<Rightarrow>
               if c = 44 then
                 (case parse_elements n r' of
                    None \<Rightarrow> None
                  | Some (vs, r'') \<Rightarrow> Some (v # vs, r''))
               else if c = 93 then Some ([v], r')
               else None))"
| "parse_members 0 acc s = None"
| "parse_members (Suc n) acc s =
     (case skip_ws s of
        [] \<Rightarrow> None
      | c # r \<Rightarrow>
          if c = 34 then
            (case parse_chars r of
               None \<Rightarrow> None
             | Some (k, r1) \<Rightarrow>
                 (case skip_ws r1 of
                    [] \<Rightarrow> None
                  | c1 # r2 \<Rightarrow>
                      if c1 = 58 then
                        (case parse_value n r2 of
                           None \<Rightarrow> None
                         | Some (v, r3) \<Rightarrow>
                             (case skip_ws r3 of
                                [] \<Rightarrow> None
                              | c3 # r4 \<Rightarrow>
                                  if c3 = 44 then parse_members n (obj_put k v acc) r4
                                  else if c3 = 125 then Some (obj_put k v acc, r4)
                                  else None))
                      else None))
          else None)"

definition JSON_parse :: "jsstring \<Rightarrow> json option" where
  "JSON_parse s =
     (case parse_value (2 * length s + 2) s of
        None \<Rightarrow> None
      | Some (v, r) \<Rightarrow> if skip_ws r = [] then Some v else None)"

subsection \<open>Values that survive printing and parsing\<close>

text \<open>
  The values of the model that stand for exactly one JavaScript value: numbers are safe
  integers, and the properties of an object are distinct and in enumeration order.
\<close>

fun keys_ordered :: "jsstring list \<Rightarrow> bool" where
  "keys_ordered [] = True"
| "keys_ordered (k # ks) =
     (list_all (\<lambda>k'. is_array_index k' \<longrightarrow> is_array_index k \<and> digits_value k < digits_value k') ks
      \<and> keys_ordered ks)"

fun wf_json :: "json \<Rightarrow> bool" where
  "wf_json JNull = True"
| "wf_json (JBool b) = True"
| "wf_json (JNum i) = is_safe_integer i"
| "wf_json (JDec lit) = False"
| "wf_json (JStr s) = True"
| "wf_json (JArr vs) = list_all wf_json vs"
| "wf_json (JObj kvs) =
     (distinct (map fst kvs) \<and> keys_ordered (map fst kvs) \<and> list_all (\<lambda>kv. wf_json (snd kv)) kvs)"

text \<open>
  Notions used to state the behaviour of the parser on printed text: the text that may
  follow a printed value, the number of nested calls a value needs, the properties defined
  one after the other, and the characters a printed value can start with.
\<close>

definition num_end :: "jsstring \<Rightarrow> bool" where
  "num_end rest = (case rest of [] \<Rightarrow> True | c # _ \<Rightarrow> \<not> is_digit c \<and> c \<noteq> 46 \<and> c \<noteq> 101 \<and> c \<noteq> 69)"

definition value_end :: "jsstring \<Rightarrow> bool" where
  "value_end rest = (case rest of [] \<Rightarrow> True | c # _ \<Rightarrow> c = 44 \<or> c = 10)"

fun fuel_needed :: "json \<Rightarrow> nat" where
  "fuel_needed (JArr vs) = Suc (sum_list (map (\<lambda>v. Suc (fuel_needed v)) vs))"
| "fuel_needed (JObj kvs) = Suc (sum_list (map (\<lambda>kv. Suc (fuel_needed (snd kv))) kvs))"
| "fuel_needed v = 1"

definition put_all :: "(jsstring \<times> json) list \<Rightarrow> (jsstring \<times> json) list \<Rightarrow> (jsstring \<times> json) list" where
  "put_all acc kvs = foldl (\<lambda>a kv. obj_put (fst kv) (snd kv) a) acc kvs"

definition starter :: "jschar \<Rightarrow> bool" where
  "starter c = (\<not> is_json_ws c \<and> c \<noteq> 93 \<and> c \<noteq> 125 \<and> c \<noteq> 44 \<and> c \<noteq> 58)"

definition parses_back :: "json \<Rightarrow> bool" where
  "parses_back v \<longleftrightarrow> (\<forall>f ind ws rest. fuel_needed v \<le> f \<longrightarrow> list_all is_json_ws ws \<longrightarrow> value_end rest \<longrightarrow>
             parse_value f (ws @ serialize ind v @ rest) = Some (v, rest))"

text \<open>
  What it means that a bound on the nested calls is no restriction: a result obtained with
  the bound is obtained with every bound of at least twice the number of consumed
  characters.
\<close>

definition value_fuel_ok :: "nat \<Rightarrow> bool" where
  "value_fuel_ok f \<longleftrightarrow>
     (\<forall>s v r. parse_value f s = Some (v, r) \<longrightarrow>
        length r < length s
        \<and> (\<forall>g. 2 * (length s - length r) \<le> Suc g \<longrightarrow> parse_value g s = Some (v, r)))"

definition elements_fuel_ok :: "nat \<Rightarrow> bool" where
  "elements_fuel_ok f \<longleftrightarrow>
     (\<forall>s vs r. parse_elements f s = Some (vs, r) \<longrightarrow>
        length r < length s
        \<and> (\<forall>g. 2 * (length s - length r) \<le> g \<longrightarrow> parse_elements g s = Some (vs, r)))"

definition members_fuel_ok :: "nat \<Rightarrow> bool" where
  "members_fuel_ok f \<longleftrightarrow>
     (\<forall>acc s kvs r. parse_members f acc s = Some (kvs, r) \<longrightarrow>
        length r < length s
        \<and> (\<forall>g. 2 * (length s - length r) \<le> g \<longrightarrow> parse_members g acc s = Some (kvs, r)))"

section \<open>Cards\<close>

text \<open>A card of the dashboard: \<open>{ id, title, url, color }\<close>.\<close>

record card =
  card_id :: int
  card_title :: jsstring
  card_url :: jsstring
  card_color :: jsstring

section \<open>Paths and the file system\<close>

text \<open>
  \<open>path.join\<close> and \<open>path.normalize\<close> of Node on POSIX: the arguments are joined with a
  slash, empty and \<open>.\<close> segments are dropped, and \<open>..\<close> removes the segment before it.
\<close>

fun normalize_segments :: "bool \<Rightarrow> jsstring list \<Rightarrow> jsstring list \<Rightarrow> jsstring list" where
  "normalize_segments allowAboveRoot [] st = rev st"
| "normalize_segments allowAboveRoot (seg # segs) st =
     (if seg = [] \<or> seg = js ''.'' then normalize_segments allowAboveRoot segs st
      else if seg = js ''..'' then
        (case st of
           [] \<Rightarrow> normalize_segments allowAboveRoot segs (if allowAboveRoot then [seg] else [])
         | t # ts \<Rightarrow>
             if t = js ''..'' then normalize_segments allowAboveRoot segs (seg # st)
             else normalize_segments allowAboveRoot segs ts)
      else normalize_segments allowAboveRoot segs (seg # st))"

definition path_normalize :: "jsstring \<Rightarrow> jsstring" where
  "path_normalize p =
     (if p = [] then js ''.''
      else
        let isAbsolute = (hd p = 47);
            trailingSeparator = (last p = 47);
            q = join_with [47] (normalize_segments (\<not> isAbsolute) (split_on 47 p) [])
        in if q = [] then (if isAbsolute then js ''/'' else if trailingSeparator then js ''./'' else js ''.'')
           else (if isAbsolute then [47] else []) @ q @ (if trailingSeparator then [47] else []))"

definition path_join :: "jsstring \<Rightarrow> jsstring \<Rightarrow> jsstring" where
  "path_join a b =
     (if a = [] \<and> b = [] then js ''.''
      else if a = [] then path_normalize b
      else if b = [] then path_normalize a
      else path_normalize (a @ [47] @ b))"

text \<open>
  The directory of \<open>app.js\<close> and \<open>sync.js\<close>: the image built by \<open>build.sh\<close> copies them to
  \<open>/app\<close> and starts \<open>node app.js\<close> there.
\<close>

definition dirname :: jsstring where
  "dirname = js ''/app''"

definition LOG_DIR :: jsstring where
  "LOG_DIR = path_join dirname (js ''logs'')"

definition DATA_FILE :: jsstring where
  "DATA_FILE = path_join dirname (js ''data.json'')"

text \<open>
  The file system maps a path to what is there: nothing (and the error, if any, that
  creating a file there meets), a directory with its listing, or a regular file with its
  permissions and text. Files hold text: encoding to UTF-8 on write and decoding on read
  are not modelled.
\<close>

datatype errno = ENOENT | EACCES | EISDIR | ENOTDIR | ENOSPC

datatype fnode =
    Missing "errno option"
  | Folder bool "jsstring list"
  | Regular bool bool jsstring

type_synonym filesystem = "jsstring \<Rightarrow> fnode"

definition readFileSync :: "filesystem \<Rightarrow> jsstring \<Rightarrow> errno + jsstring" where
  "readFileSync fs p =
     (case fs p of
        Missing c \<Rightarrow> Inl ENOENT
      | Folder l names \<Rightarrow> Inl EISDIR
      | Regular r w text \<Rightarrow> if r then Inr text else Inl EACCES)"

definition writeFileSync :: "filesystem \<Rightarrow> jsstring \<Rightarrow> jsstring \<Rightarrow> errno + filesystem" where
  "writeFileSync fs p d =
     (case fs p of
        Missing c \<Rightarrow> (case c of None \<Rightarrow> Inr (fs(p := Regular True True d)) | Some e \<Rightarrow> Inl e)
      | Folder l names \<Rightarrow> Inl EISDIR
      | Regular r w text \<Rightarrow> if w then Inr (fs(p := Regular r w d)) else Inl EACCES)"

definition appendFileSync :: "filesystem \<Rightarrow> jsstring \<Rightarrow> jsstring \<Rightarrow> errno + filesystem" where
  "appendFileSync fs p d =
     (case fs p of
        Missing c \<Rightarrow> (case c of None \<Rightarrow> Inr (fs(p := Regular True True d)) | Some e \<Rightarrow> Inl e)
      | Folder l names \<Rightarrow> Inl EISDIR
      | Regular r w text \<Rightarrow> if w then Inr (fs(p := Regular r w (text @ d))) else Inl EACCES)"


section \<open>The server (app.js)\<close>

subsection \<open>Requests, responses and the middleware stack of Express\<close>

record request =
  req_ip :: jsstring
  req_method :: jsstring
  req_originalUrl :: jsstring
  req_user_agent :: "jsstring option"
  req_body :: json

datatype body = JsonBody json | TextBody jsstring | DefaultPage

datatype response = Response nat body

datatype js_error = FsError errno | Error jsstring | SyntaxError

text \<open>
  What a handler does with a request: it calls \<open>next()\<close>, it throws, or it sends the
  response. A handler that throws has not changed the file system.
\<close>

datatype mw_result =
    CallNext filesystem request
  | Threw js_error
  | Responded filesystem response

datatype layer =
    Middleware "filesystem \<Rightarrow> request \<Rightarrow> mw_result"
  | ErrorHandler "js_error \<Rightarrow> filesystem \<Rightarrow> request \<Rightarrow> mw_result"

text \<open>
  Express walks the stack in the order of registration. While no error is pending it skips
  the error handlers (the functions of four arguments); an exception thrown by a handler
  becomes the pending error, and from then on the other handlers are skipped, up to the
  next error handler. At the end of the stack the default handler answers 404, or 500 for
  a pending error.
\<close>

fun express_dispatch ::
  "layer list \<Rightarrow> js_error option \<Rightarrow> filesystem \<Rightarrow> request \<Rightarrow> filesystem \<times> response" where
  "express_dispatch [] None fs req = (fs, Response 404 DefaultPage)"
| "express_dispatch [] (Some err) fs req = (fs, Response 500 DefaultPage)"
| "express_dispatch (Middleware h # ls) None fs req =
     (case h fs req of
        CallNext fs' req' \<Rightarrow> express_dispatch ls None fs' req'
      | Threw err \<Rightarrow> express_dispatch ls (Some err) fs req
      | Responded fs' res \<Rightarrow> (fs', res))"
| "express_dispatch (Middleware h # ls) (Some err) fs req = express_dispatch ls (Some err) fs req"
| "express_dispatch (ErrorHandler h # ls) None fs req = express_dispatch ls None fs req"
| "express_dispatch (ErrorHandler h # ls) (Some err) fs req =
     (case h err fs req of
        CallNext fs' req' \<Rightarrow> express_dispatch ls None fs' req'
      | Threw err' \<Rightarrow> express_dispatch ls (Some err') fs req
      | Responded fs' res \<Rightarrow> (fs', res))"

text \<open>
  A route \<open>app.get(path, handler)\<close> or \<open>app.post(path, handler)\<close>: the handler runs when
  method and path (the URL without its query string) match, otherwise the request goes on.
\<close>

definition url_path :: "jsstring \<Rightarrow> jsstring" where
  "url_path url = takeWhile (\<lambda>c. c \<noteq> 63) url"

definition route ::
  "jsstring \<Rightarrow> jsstring \<Rightarrow> (filesystem \<Rightarrow> request \<Rightarrow> mw_result) \<Rightarrow> layer" where
  "route m p h =
     Middleware (\<lambda>fs req. if req_method req = m \<and> url_path (req_originalUrl req) = p
                           then h fs req else CallNext fs req)"

subsection \<open>The access log\<close>

text \<open>
  The fields of \<open>new Date(Date.now() + offset)\<close> that the code reads with the \<open>getUTC...\<close>
  methods; the month counts from 0.
\<close>

record date_fields =
  UTCFullYear :: nat
  UTCMonth :: nat
  UTCDate :: nat
  UTCHours :: nat
  UTCMinutes :: nat
  UTCSeconds :: nat

definition padStart2 :: "jsstring \<Rightarrow> jsstring" where
  "padStart2 s = replicate (2 - length s) 48 @ s"

definition getBeijingTimeString :: "date_fields \<Rightarrow> jsstring" where
  "getBeijingTimeString now =
     nat_digits (UTCFullYear now) @ js ''/'' @ nat_digits (UTCMonth now + 1) @ js ''/''
     @ nat_digits (UTCDate now) @ js '' '' @ padStart2 (nat_digits (UTCHours now)) @ js '':''
     @ padStart2 (nat_digits (UTCMinutes now)) @ js '':'' @ padStart2 (nat_digits (UTCSeconds now))"

definition getLogFileName :: "jsstring \<Rightarrow> date_fields \<Rightarrow> jsstring" where
  "getLogFileName type now =
     path_join LOG_DIR
       (type @ js ''-'' @ nat_digits (UTCFullYear now) @ js ''-''
        @ padStart2 (nat_digits (UTCMonth now + 1)) @ js ''-''
        @ padStart2 (nat_digits (UTCDate now)) @ js ''.log'')"

definition access_log_line :: "date_fields \<Rightarrow> request \<Rightarrow> jsstring" where
  "access_log_line now req =
     js ''['' @ getBeijingTimeString now @ js ''] [IP: '' @ req_ip req @ js ''] [''
     @ req_method req @ js ''] '' @ req_originalUrl req @ js '' - '' @ [34]
     @ (case req_user_agent req of None \<Rightarrow> [] | Some ua \<Rightarrow> ua) @ [34, 10]"

definition writeAccessLog :: "date_fields \<Rightarrow> filesystem \<Rightarrow> request \<Rightarrow> errno + filesystem" where
  "writeAccessLog now fs req =
     appendFileSync fs (getLogFileName (js ''access'') now) (access_log_line now req)"

text \<open>\<open>app.use((req, res, next) => { writeAccessLog(req); next(); })\<close>\<close>

definition logging_middleware :: "date_fields \<Rightarrow> filesystem \<Rightarrow> request \<Rightarrow> mw_result" where
  "logging_middleware now fs req =
     (case writeAccessLog now fs req of
        Inl e \<Rightarrow> Threw (FsError e)
      | Inr fs' \<Rightarrow> CallNext fs' req)"

text \<open>\<open>app.use((err, req, res, next) => { res.status(500).json({ success: false, message }) })\<close>\<close>

definition server_error_message :: jsstring where
  "server_error_message = [0x670D, 0x52A1, 0x5668, 0x9519, 0x8BEF]"

definition error_middleware :: "js_error \<Rightarrow> filesystem \<Rightarrow> request \<Rightarrow> mw_result" where
  "error_middleware err fs req =
     Responded fs (Response 500
       (JsonBody (JObj [(js ''success'', JBool False), (js ''message'', JStr server_error_message)])))"

text \<open>
  The stack of the application, in the order of the \<open>app.use\<close> calls: the body parser, the
  logging middleware, the error handler, and then the static files and the routes. The body
  parser is a library and the layers after the error handler are given as \<open>routes\<close>.
\<close>

definition app_stack ::
  "(filesystem \<Rightarrow> request \<Rightarrow> mw_result) \<Rightarrow> date_fields \<Rightarrow> layer list \<Rightarrow> layer list" where
  "app_stack bodyParser_json now routes =
     [Middleware bodyParser_json, Middleware (logging_middleware now), ErrorHandler error_middleware]
     @ routes"

definition handle_request ::
  "(filesystem \<Rightarrow> request \<Rightarrow> mw_result) \<Rightarrow> date_fields \<Rightarrow> layer list
     \<Rightarrow> filesystem \<Rightarrow> request \<Rightarrow> filesystem \<times> response" where
  "handle_request bodyParser_json now routes fs req =
     express_dispatch (app_stack bodyParser_json now routes) None fs req"

subsection \<open>The card store\<close>

text \<open>\<open>app.get('/api/cards', ...)\<close>: the stored document, or an empty array when reading or parsing fails.\<close>

definition get_cards :: "filesystem \<Rightarrow> response" where
  "get_cards fs =
     (case readFileSync fs DATA_FILE of
        Inl err \<Rightarrow> Response 200 (JsonBody (JArr []))
      | Inr data \<Rightarrow>
          (case JSON_parse data of
             None \<Rightarrow> Response 200 (JsonBody (JArr []))
           | Some v \<Rightarrow> Response 200 (JsonBody v)))"

text \<open>\<open>app.post('/api/cards', ...)\<close>: the request body, whatever it is, is printed and written.\<close>

definition post_cards :: "filesystem \<Rightarrow> json \<Rightarrow> filesystem \<times> response" where
  "post_cards fs reqbody =
     (case writeFileSync fs DATA_FILE (JSON_stringify reqbody) of
        Inl err \<Rightarrow> (fs, Response 200 (JsonBody (JObj [(js ''success'', JBool False)])))
      | Inr fs' \<Rightarrow> (fs', Response 200 (JsonBody (JObj [(js ''success'', JBool True)]))))"

definition get_cards_route :: layer where
  "get_cards_route = route (js ''GET'') (js ''/api/cards'') (\<lambda>fs req. Responded fs (get_cards fs))"

definition post_cards_route :: layer where
  "post_cards_route =
     route (js ''POST'') (js ''/api/cards'')
       (\<lambda>fs req. case post_cards fs (req_body req) of (fs', res) \<Rightarrow> Responded fs' res)"

text \<open>A card as the JSON object the dashboard posts, and a sequence of cards as an array.\<close>

definition card_json :: "card \<Rightarrow> json" where
  "card_json c =
     JObj [(js ''id'', JNum (card_id c)), (js ''title'', JStr (card_title c)),
           (js ''url'', JStr (card_url c)), (js ''color'', JStr (card_color c))]"

definition cards_json :: "card list \<Rightarrow> json" where
  "cards_json cs = JArr (map card_json cs)"

subsection \<open>The log catalog and the log reader\<close>

text \<open>
  \<open>Array.prototype.sort\<close> with a comparator is stable. For a comparator that orders the
  elements consistently every stable sort gives the same result, here computed by
  insertion: an element goes before the first element that does not have to precede it.
\<close>

fun insert_by :: "('a \<Rightarrow> 'a \<Rightarrow> int) \<Rightarrow> 'a \<Rightarrow> 'a list \<Rightarrow> 'a list" where
  "insert_by cmp x [] = [x]"
| "insert_by cmp x (y # ys) = (if cmp x y \<le> 0 then x # y # ys else y # insert_by cmp x ys)"

definition Array_sort :: "('a \<Rightarrow> 'a \<Rightarrow> int) \<Rightarrow> 'a list \<Rightarrow> 'a list" where
  "Array_sort cmp xs = foldr (insert_by cmp) xs []"

definition is_access_log :: "jsstring \<Rightarrow> bool" where
  "is_access_log file = (startsWith file (js ''access-'') \<and> endsWith file (js ''.log''))"

text \<open>\<open>a.replace('access-', '').replace('.log', '')\<close>\<close>

definition log_date :: "jsstring \<Rightarrow> jsstring" where
  "log_date a = replace_first (replace_first a (js ''access-'') []) (js ''.log'') []"




definition invalid_name_message :: jsstring where
  "invalid_name_message = [0x65E0, 0x6548, 0x7684, 0x65E5, 0x5FD7, 0x6587, 0x4EF6, 0x540D]"

definition no_such_log_message :: jsstring where
  "no_such_log_message = [0x65E5, 0x5FD7, 0x6587, 0x4EF6, 0x4E0D, 0x5B58, 0x5728]"

text \<open>
  \<open>app.get('/api/logs/:filename', ...)\<close>, with the value of the route parameter, which
  Express has percent-decoded. The result is the response and the paths given to
  \<open>fs.readFile\<close>.
\<close>

definition get_logs_filename :: "filesystem \<Rightarrow> jsstring \<Rightarrow> response \<times> jsstring list" where
  "get_logs_filename fs filename =
     (if \<not> startsWith filename (js ''access-'') \<or> \<not> endsWith filename (js ''.log'')
      then (Response 400 (TextBody invalid_name_message), [])
      else
        let file = path_join LOG_DIR filename
        in (case readFileSync fs file of
              Inl err \<Rightarrow> (Response 404 (TextBody no_such_log_message), [file])
            | Inr data \<Rightarrow> (Response 200 (TextBody data), [file])))"

section \<open>Remote sync (sync.js)\<close>

text \<open>
  What the network and the GitHub API answer to a request: a connection error with its
  message, or a response with status code and body.
\<close>

datatype http_result = NetworkError jsstring | HttpResponse nat jsstring

record gh_request =
  gh_method :: jsstring
  gh_url :: jsstring
  gh_data :: "json option"

text \<open>
  The environment of a run: the two configuration variables, the text of
  \<open>new Date().toLocaleString('zh-CN')\<close>, the base64 encoding of \<open>Buffer\<close>, and the remote
  side.
\<close>

record sync_env =
  GITHUB_TOKEN :: "jsstring option"
  GITHUB_REPO :: "jsstring option"
  localeString :: jsstring
  base64 :: "jsstring \<Rightarrow> jsstring"
  remote :: "gh_request \<Rightarrow> http_result"

text \<open>
  The promise of \<open>githubRequest\<close> is resolved with the parsed body or rejected with an
  error message. \<open>JSON.parse\<close> runs in the \<open>end\<close> callback of the response, outside the
  promise: when it throws, the exception is uncaught and the promise never settles.
\<close>

datatype 'a settled = Resolved 'a | Rejected jsstring | ThrownInCallback

definition api_error :: "nat \<Rightarrow> jsstring \<Rightarrow> jsstring" where
  "api_error statusCode responseBody =
     js ''API '' @ [0x9519, 0x8BEF] @ js '' ['' @ nat_digits statusCode @ js '']'' @ [0xFF1A]
     @ responseBody"

text \<open>
  The URL of a request. The script has left before \<open>sync\<close> when \<open>GITHUB_REPO\<close> is not
  set; a repository name without a slash gives the text \<open>undefined\<close> for the second part.
\<close>

definition request_url :: "sync_env \<Rightarrow> jsstring \<Rightarrow> jsstring" where
  "request_url env path =
     (let parts = split_on 47 (case GITHUB_REPO env of None \<Rightarrow> [] | Some r \<Rightarrow> r);
          owner = hd parts;
          repo = (case tl parts of [] \<Rightarrow> js ''undefined'' | r # _ \<Rightarrow> r)
      in js ''https://api.github.com/repos/'' @ owner @ js ''/'' @ repo @ js ''/'' @ path)"

definition githubRequest :: "sync_env \<Rightarrow> jsstring \<Rightarrow> jsstring \<Rightarrow> json option \<Rightarrow> json settled" where
  "githubRequest env method path data =
     (case remote env \<lparr>gh_method = method, gh_url = request_url env path, gh_data = data\<rparr> of
        NetworkError msg \<Rightarrow> Rejected msg
      | HttpResponse statusCode responseBody \<Rightarrow>
          if statusCode \<ge> 400 then Rejected (api_error statusCode responseBody)
          else (case JSON_parse (if responseBody = [] then js ''{}'' else responseBody) of
                  None \<Rightarrow> ThrownInCallback
                | Some v \<Rightarrow> Resolved v))"

text \<open>The truth value of a parsed value, and its property \<open>sha\<close> (\<open>None\<close> for \<open>undefined\<close>).\<close>

fun truthy :: "json \<Rightarrow> bool" where
  "truthy JNull = False"
| "truthy (JBool b) = b"
| "truthy (JNum i) = (i \<noteq> 0)"
| "truthy (JDec lit) = list_ex (\<lambda>c. 49 \<le> c \<and> c \<le> 57) (takeWhile (\<lambda>c. c \<noteq> 101 \<and> c \<noteq> 69) lit)"
| "truthy (JStr s) = (s \<noteq> [])"
| "truthy (JArr vs) = True"
| "truthy (JObj kvs) = True"

fun sha_of :: "json \<Rightarrow> json option" where
  "sha_of (JObj kvs) = map_of kvs (js ''sha'')"
| "sha_of v = None"

definition commit_fields :: "sync_env \<Rightarrow> jsstring \<Rightarrow> (jsstring \<times> json) list" where
  "commit_fields env localData =
     [(js ''message'', JStr (js ''Update data.json - '' @ localeString env)),
      (js ''content'', JStr (base64 env localData)),
      (js ''branch'', JStr (js ''main''))]"

definition get_request :: "sync_env \<Rightarrow> gh_request" where
  "get_request env =
     \<lparr>gh_method = js ''GET'', gh_url = request_url env (js ''contents/data.json''), gh_data = None\<rparr>"

definition put_request :: "sync_env \<Rightarrow> (jsstring \<times> json) list \<Rightarrow> gh_request" where
  "put_request env kvs =
     \<lparr>gh_method = js ''PUT'', gh_url = request_url env (js ''contents/data.json''),
      gh_data = Some (JObj kvs)\<rparr>"

text \<open>
  How the process ends: \<open>process.exit(0)\<close>, \<open>process.exit(1)\<close> in the \<open>catch\<close> branch, or
  an uncaught exception, on which Node exits with code 1.
\<close>

datatype sync_outcome = ExitSuccess | ExitFailure | UncaughtException


text \<open>
  Steps 3 and 4 of \<open>sync\<close>: the commit data, with the property \<open>sha\<close> when the remote file
  information is truthy and has one (a property set to \<open>undefined\<close> is not sent), and the
  \<open>PUT\<close> request. The result is the outcome and the request sent.
\<close>

definition push_commit ::
  "sync_env \<Rightarrow> jsstring \<Rightarrow> json \<Rightarrow> sync_outcome \<times> gh_request list" where
  "push_commit env localData remoteFileInfo =
     (let commitData =
            (if truthy remoteFileInfo then
               (case sha_of remoteFileInfo of
                  None \<Rightarrow> commit_fields env localData
                | Some h \<Rightarrow> commit_fields env localData @ [(js ''sha'', h)])
             else commit_fields env localData)
      in case githubRequest env (js ''PUT'') (js ''contents/data.json'') (Some (JObj commitData)) of
           Resolved v \<Rightarrow> (ExitSuccess, [put_request env commitData])
         | Rejected msg \<Rightarrow> (ExitFailure, [put_request env commitData])
         | ThrownInCallback \<Rightarrow> (UncaughtException, [put_request env commitData]))"

text \<open>\<open>sync\<close>: the outcome and the requests sent, in order.\<close>

definition sync :: "sync_env \<Rightarrow> filesystem \<Rightarrow> sync_outcome \<times> gh_request list" where
  "sync env fs =
     (case readFileSync fs DATA_FILE of
        Inl err \<Rightarrow> (ExitFailure, [])
      | Inr localData \<Rightarrow>
          if localData = [] then (ExitFailure, [])
          else
            (case githubRequest env (js ''GET'') (js ''contents/data.json'') None of
               Resolved remoteFileInfo \<Rightarrow>
                 (case push_commit env localData remoteFileInfo of
                    (out, reqs) \<Rightarrow> (out, get_request env # reqs))
             | Rejected msg \<Rightarrow>
                 if str_includes msg (js ''[404]'') then
                   (case push_commit env localData JNull of
                      (out, reqs) \<Rightarrow> (out, get_request env # reqs))
                 else (ExitFailure, [get_request env])
             | ThrownInCallback \<Rightarrow> (UncaughtException, [get_request env])))"

text \<open>The script: the two checks at its top, then \<open>sync()\<close>.\<close>

definition sync_js :: "sync_env \<Rightarrow> filesystem \<Rightarrow> sync_outcome \<times> gh_request list" where
  "sync_js env fs =
     (if (case GITHUB_TOKEN env of None \<Rightarrow> True | Some t \<Rightarrow> t = [])
         \<or> (case GITHUB_REPO env of None \<Rightarrow> True | Some r \<Rightarrow> r = [])
      then (ExitFailure, [])
      else if (case fs DATA_FILE of Missing c \<Rightarrow> True | Folder l names \<Rightarrow> True | Regular r w text \<Rightarrow> False)
      then (ExitFailure, [])
      else sync env fs)"



section \<open>The log viewer (public/logs/index.html, written by build.sh)\<close>

subsection \<open>The regular expression for IP addresses\<close>

text \<open>
  \<open>/\b(?:\d{1,3}\.){3}\d{1,3}\b/g\<close>. A piece of the expression maps a text to the texts
  that may remain after it has matched at the start, in the order in which backtracking
  tries them: the greedy \<open>\d{1,3}\<close> tries three digits, then two, then one.
\<close>

definition is_word_char :: "jschar \<Rightarrow> bool" where
  "is_word_char c = (is_digit c \<or> (65 \<le> c \<and> c \<le> 90) \<or> (97 \<le> c \<and> c \<le> 122) \<or> c = 95)"

definition digits_1_3 :: "jsstring \<Rightarrow> jsstring list" where
  "digits_1_3 s =
     map (\<lambda>n. drop n s) (filter (\<lambda>n. n \<le> length s \<and> list_all is_digit (take n s)) [3, 2, 1])"

definition dot :: "jsstring \<Rightarrow> jsstring list" where
  "dot s = (case s of [] \<Rightarrow> [] | c # r \<Rightarrow> if c = 46 then [r] else [])"

definition digits_dot :: "jsstring \<Rightarrow> jsstring list" where
  "digits_dot s = concat (map dot (digits_1_3 s))"

text \<open>
  \<open>\b\<close> between the character before the position (if any) and the text from the
  position on: exactly one of the two neighbours is a word character.
\<close>

definition word_boundary :: "jschar option \<Rightarrow> jsstring \<Rightarrow> bool" where
  "word_boundary prev s =
     ((case prev of None \<Rightarrow> False | Some p \<Rightarrow> is_word_char p)
      \<noteq> (case s of [] \<Rightarrow> False | c # _ \<Rightarrow> is_word_char c))"

text \<open>
  The match of the whole expression at one position, if there is one: the matched text of
  the first alternative that succeeds. Before the last boundary stands a digit.
\<close>

definition match_ip_here :: "jschar option \<Rightarrow> jsstring \<Rightarrow> jsstring option" where
  "match_ip_here prev s =
     (if word_boundary prev s then
        (case filter (\<lambda>r. word_boundary (Some 48) r)
                (concat (map digits_1_3 (concat (map digits_dot (concat (map digits_dot (digits_dot s))))))) of
           [] \<Rightarrow> None
         | r # _ \<Rightarrow> Some (take (length s - length r) s))
      else None)"

text \<open>\<open>line.match(ipRegex)[0]\<close>: the match at the leftmost position that has one.\<close>

fun first_match :: "jschar option \<Rightarrow> jsstring \<Rightarrow> jsstring option" where
  "first_match prev [] = match_ip_here prev []"
| "first_match prev (c # s) =
     (case match_ip_here prev (c # s) of
        Some m \<Rightarrow> Some m
      | None \<Rightarrow> first_match (Some c) s)"

subsection \<open>Statistics\<close>

text \<open>White space as \<open>String.prototype.trim\<close> removes it.\<close>

definition is_js_space :: "jschar \<Rightarrow> bool" where
  "is_js_space c =
     (c = 9 \<or> c = 10 \<or> c = 11 \<or> c = 12 \<or> c = 13 \<or> c = 32 \<or> c = 0xA0 \<or> c = 0x1680
      \<or> (0x2000 \<le> c \<and> c \<le> 0x200A) \<or> c = 0x2028 \<or> c = 0x2029 \<or> c = 0x202F
      \<or> c = 0x205F \<or> c = 0x3000 \<or> c = 0xFEFF)"

definition trim :: "jsstring \<Rightarrow> jsstring" where
  "trim s = rev (dropWhile is_js_space (rev (dropWhile is_js_space s)))"

record ip_stats =
  total :: nat
  unique :: nat
  ipCounts :: "(jsstring \<times> nat) list"

text \<open>
  \<open>ipCounts[ip] = (ipCounts[ip] || 0) + 1\<close> on an object whose keys, having dots, are no
  array indices: a new key goes last.
\<close>

fun count_ip :: "jsstring \<Rightarrow> (jsstring \<times> nat) list \<Rightarrow> (jsstring \<times> nat) list" where
  "count_ip ip [] = [(ip, 1)]"
| "count_ip ip ((k, n) # kvs) = (if k = ip then (k, n + 1) # kvs else (k, n) # count_ip ip kvs)"

definition parseAccessLogStats :: "jsstring \<Rightarrow> ip_stats" where
  "parseAccessLogStats logText =
     (let lines = filter (\<lambda>line. trim line \<noteq> []) (split_on 10 logText);
          counts = foldl (\<lambda>acc line. case first_match None line of
                                         None \<Rightarrow> acc
                                       | Some ip \<Rightarrow> count_ip ip acc) [] lines
      in \<lparr>total = length lines, unique = length counts, ipCounts = counts\<rparr>)"

text \<open>
  \<open>updateStatsPanel\<close>: the entries sorted by descending count, the first eight of them
  shown.
\<close>

definition sortedIps :: "ip_stats \<Rightarrow> (jsstring \<times> nat) list" where
  "sortedIps stats = take 8 (Array_sort (\<lambda>a b. int (snd b) - int (snd a)) (ipCounts stats))"

section \<open>The dashboard (public/index.html, written by build.sh)\<close>

subsection \<open>The save handler of the card form\<close>

text \<open>
  \<open>c.id == id\<close> compares a number with the text of the hidden form field: the text is
  converted with ToNumber. The field is only ever set from a card's id, so the model
  converts decimal integer text (an optional minus sign and digits) and treats any other
  text as NaN, which equals no number.
\<close>

definition to_number :: "jsstring \<Rightarrow> int option" where
  "to_number s =
     (case s of
        [] \<Rightarrow> Some 0
      | c # r \<Rightarrow>
          if c = 45 then (if r \<noteq> [] \<and> list_all is_digit r then Some (- int (digits_value r)) else None)
          else if list_all is_digit s then Some (int (digits_value s)) else None)"

definition loose_eq :: "int \<Rightarrow> jsstring \<Rightarrow> bool" where
  "loose_eq n s = (to_number s = Some n)"

text \<open>
  \<open>cards.length ? Math.max(...cards.map(c => c.id)) + 1 : 1\<close>: the maximum is folded over
  the ids of a non-empty list.
\<close>

definition next_card_id :: "card list \<Rightarrow> int" where
  "next_card_id cards =
     (case cards of [] \<Rightarrow> 1 | c # cs \<Rightarrow> fold max (map card_id cs) (card_id c) + 1)"

text \<open>
  The click handler of \<open>saveCardBtn\<close>. \<open>idv\<close>, \<open>title\<close>, \<open>url\<close> and \<open>color\<close> are the values
  of the form fields and \<open>cards\<close> is the list fetched from \<open>/api/cards\<close>. The result is
  the list posted back by \<open>saveCards\<close>, or \<open>None\<close> when the handler stops at the alert.
\<close>

definition saveCardBtn_click ::
  "jsstring \<Rightarrow> jsstring \<Rightarrow> jsstring \<Rightarrow> jsstring \<Rightarrow> card list \<Rightarrow> card list option" where
  "saveCardBtn_click idv title url color cards =
     (if title = [] \<or> url = [] then None
      else if idv \<noteq> [] then
        Some (map (\<lambda>c. if loose_eq (card_id c) idv
                        then c\<lparr>card_title := title, card_url := url, card_color := color\<rparr>
                        else c) cards)
      else
        Some (cards @ [\<lparr>card_id = next_card_id cards, card_title = title,
                        card_url = url, card_color = color\<rparr>]))"

section \<open>Example states\<close>

text \<open>Concrete file systems and cards, used to instantiate the theorems.\<close>

definition ok_response :: response where
  "ok_response = Response 200 (JsonBody (JObj [(js ''success'', JBool True)]))"

definition empty_disk :: filesystem where
  "empty_disk = (\<lambda>p. Missing None)"

definition example_cards :: "card list" where
  "example_cards =
     [\<lparr>card_id = 1, card_title = js ''Blog'', card_url = js ''https://a.example/'', card_color = js ''#3cff3c''\<rparr>,
      \<lparr>card_id = 3, card_title = js ''Mail'', card_url = js ''https://b.example/'', card_color = js ''red''\<rparr>]"

definition disk_with_data :: "jsstring \<Rightarrow> filesystem" where
  "disk_with_data text = empty_disk(DATA_FILE := Regular True True text)"

definition unreadable_disk :: filesystem where
  "unreadable_disk = empty_disk(DATA_FILE := Regular False True (js ''[]''))"



definition disk_with_auth_log :: filesystem where
  "disk_with_auth_log = empty_disk(js ''/var/log/auth.log'' := Regular True True (js ''sshd: session opened''))"






definition example_now :: date_fields where
  "example_now = \<lparr>UTCFullYear = 2026, UTCMonth = 0, UTCDate = 8,
                   UTCHours = 10, UTCMinutes = 0, UTCSeconds = 0\<rparr>"

definition example_request :: request where
  "example_request = \<lparr>req_ip = js ''1.2.3.4'', req_method = js ''GET'',
                       req_originalUrl = js ''/api/cards'', req_user_agent = Some (js ''UA''),
                       req_body = JObj []\<rparr>"

definition pass_through :: "filesystem \<Rightarrow> request \<Rightarrow> mw_result" where
  "pass_through fs req = CallNext fs req"

definition read_only_log_disk :: filesystem where
  "read_only_log_disk =
     (disk_with_data (js ''[]''))(js ''/app/logs/access-2026-01-08.log'' := Regular True False [])"

definition server_error_response :: response where
  "server_error_response =
     Response 500 (JsonBody (JObj [(js ''success'', JBool False), (js ''message'', JStr server_error_message)]))"

definition example_env :: "(gh_request \<Rightarrow> http_result) \<Rightarrow> sync_env" where
  "example_env r =
     \<lparr>GITHUB_TOKEN = Some (js ''ghp_token''), GITHUB_REPO = Some (js ''ZDX1717/zdx-world-data''),
      localeString = js ''2026/1/8 10:00:00'', base64 = (\<lambda>s. js ''W10=''), remote = r\<rparr>"

definition remote_without_file :: "gh_request \<Rightarrow> http_result" where
  "remote_without_file req =
     (if gh_method req = js ''GET'' then HttpResponse 404 (js ''{}'') else HttpResponse 201 (js ''{}''))"

definition remote_with_file :: "gh_request \<Rightarrow> http_result" where
  "remote_with_file req =
     (if gh_method req = js ''GET'' then HttpResponse 200 ([123, 34] @ js ''sha'' @ [34, 58, 34] @ js ''abc123'' @ [34, 125])
      else HttpResponse 200 (js ''{}''))"



definition example_log :: jsstring where
  "example_log =
     js ''[2026/1/8 10:00:00] [IP: 1.2.3.4] [GET] /x - '' @ [34] @ js ''UA'' @ [34, 10]
     @ js ''[2026/1/8 10:00:01] [IP: 1.2.3.4] [GET] /y - '' @ [34] @ js ''UA'' @ [34, 10]
     @ js ''[2026/1/8 10:00:02] [IP: 5.6.7.8] [GET] /z - '' @ [34] @ js ''UA'' @ [34, 10]"

section \<open>Printing and parsing JSON\<close>

lemma unat_of_nat16: "n < 65536 \<Longrightarrow> unat (of_nat n :: 16 word) = n"
  by (simp add: unat_of_nat)

lemma digit_char_props: "d < 10 \<Longrightarrow> is_digit (digit_char d) \<and> digit_val (digit_char d) = d"
  unfolding is_digit_def digit_val_def digit_char_def
  using unat_of_nat16 [of "48 + d"]
  by (simp add: word_le_nat_alt)

lemma nat_digits_all: "list_all is_digit (nat_digits n)"
proof (induction n rule: nat_digits.induct)
  case (1 n)
  then show ?case
    by (subst nat_digits.simps) (simp add: digit_char_props)
qed

lemma nat_digits_nonempty: "nat_digits n \<noteq> []"
  by (subst nat_digits.simps) simp

lemma digits_value_snoc: "digits_value (ds @ [c]) = 10 * digits_value ds + digit_val c"
  by (simp add: digits_value_def)

lemma digits_value_nat_digits: "digits_value (nat_digits n) = n"
proof (induction n rule: nat_digits.induct)
  case (1 n)
  show ?case
  proof (cases "n < 10")
    case True
    then show ?thesis
      by (subst nat_digits.simps) (simp add: digits_value_def digit_char_props)
  next
    case False
    then show ?thesis
      using 1 by (subst nat_digits.simps) (simp add: digits_value_snoc digit_char_props)
  qed
qed

lemma nat_digits_hd: "hd (nat_digits n) = 48 \<Longrightarrow> nat_digits n = [48]"
proof (induction n rule: nat_digits.induct)
  case (1 n)
  show ?case
  proof (cases "n < 10")
    case True
    then show ?thesis using "1.prems"
      by (subst nat_digits.simps, subst (asm) nat_digits.simps) simp
  next
    case False
    have ne: "nat_digits (n div 10) \<noteq> []" by (rule nat_digits_nonempty)
    from False "1.prems" have "hd (nat_digits (n div 10)) = 48"
      by (subst (asm) nat_digits.simps) (simp add: ne)
    with 1 False have "nat_digits (n div 10) = [48]" by simp
    then have "digits_value (nat_digits (n div 10)) = 0"
      by (simp add: digits_value_def digit_val_def)
    then have "n div 10 = 0" by (simp add: digits_value_nat_digits)
    with False show ?thesis by simp
  qed
qed


lemma digits_prefix:
  assumes "list_all is_digit ds" and "num_end rest"
  shows "takeWhile is_digit (ds @ rest) = ds" and "dropWhile is_digit (ds @ rest) = rest"
proof -
  from assms(2) have r: "takeWhile is_digit rest = []" "dropWhile is_digit rest = rest"
    by (cases rest; simp add: num_end_def)+
  from assms(1) have a: "\<And>x. x \<in> set ds \<Longrightarrow> is_digit x"
    by (simp add: list_all_iff)
  show "takeWhile is_digit (ds @ rest) = ds"
    using a r by (simp add: takeWhile_append2)
  show "dropWhile is_digit (ds @ rest) = rest"
    using a r by (simp add: dropWhile_append2)
qed

lemma parse_int_part_digits:
  assumes "num_end rest"
  shows "parse_int_part (nat_digits n @ rest) = Some (nat_digits n, rest)"
proof -
  obtain c r where cr: "nat_digits n = c # r"
    using nat_digits_nonempty [of n] by (cases "nat_digits n") auto
  have dig: "is_digit c" using nat_digits_all [of n] cr by simp
  show ?thesis
  proof (cases "c = 48")
    case True
    then have "nat_digits n = [48]" using nat_digits_hd [of n] cr by simp
    then show ?thesis by (simp add: parse_int_part_def)
  next
    case False
    have "takeWhile is_digit ((c # r) @ rest) = c # r" "dropWhile is_digit ((c # r) @ rest) = rest"
      using digits_prefix [OF _ assms, of "c # r"] nat_digits_all [of n] cr by simp_all
    then show ?thesis using False dig cr
      by (simp add: parse_int_part_def)
  qed
qed

lemma parse_frac_none: "num_end rest \<Longrightarrow> parse_frac rest = Some ([], rest)"
  by (cases rest) (simp_all add: parse_frac_def num_end_def)

lemma parse_exp_none: "num_end rest \<Longrightarrow> parse_exp rest = Some ([], rest)"
  by (cases rest) (simp_all add: parse_exp_def num_end_def)

lemma nat_digits_not_minus: "hd (nat_digits n) \<noteq> 45"
proof -
  obtain c r where cr: "nat_digits n = c # r"
    using nat_digits_nonempty [of n] by (cases "nat_digits n") auto
  have "is_digit c" using nat_digits_all [of n] cr by simp
  then have "c \<noteq> 45" by (auto simp: is_digit_def)
  with cr show ?thesis by simp
qed

lemma parse_number_int:
  assumes "num_end rest"
  shows "parse_number (int_to_string i @ rest) = Some (JNum i, rest)"
proof (cases "i < 0")
  case True
  have "int_to_string i @ rest = 45 # nat_digits (nat (- i)) @ rest"
    using True by (simp add: int_to_string_def js_def)
  then show ?thesis using True assms
    by (simp add: parse_number_def parse_int_part_digits parse_frac_none parse_exp_none
        digits_value_nat_digits)
next
  case False
  obtain c r where cr: "nat_digits (nat i) = c # r"
    using nat_digits_nonempty [of "nat i"] by (cases "nat_digits (nat i)") auto
  have c: "c \<noteq> 45" using nat_digits_not_minus [of "nat i"] cr by simp
  have s: "int_to_string i @ rest = nat_digits (nat i) @ rest"
    using False by (simp add: int_to_string_def)
  have neg: "(case nat_digits (nat i) @ rest of [] \<Rightarrow> False | c # r \<Rightarrow> c = 45) = False"
    using cr c by simp
  show ?thesis using False assms
    unfolding s parse_number_def neg
    by (simp add: parse_int_part_digits parse_frac_none parse_exp_none digits_value_nat_digits)
qed

lemma hex_val_hex_char: "d < 16 \<Longrightarrow> hex_val (hex_char d) = Some d"
proof -
  assume d: "d < 16"
  show ?thesis
  proof (cases "d < 10")
    case True
    then show ?thesis
      unfolding hex_val_def hex_char_def
      using unat_of_nat16 [of "48 + d"] by (simp add: word_le_nat_alt)
  next
    case False
    then show ?thesis
      unfolding hex_val_def hex_char_def
      using d unat_of_nat16 [of "87 + d"] by (simp add: word_le_nat_alt)
  qed
qed

lemma nibbles: "4096 * ((n::nat) div 4096) + 256 * (n div 256 mod 16)
             + 16 * (n div 16 mod 16) + n mod 16 = n"
proof -
  have a: "n div 16 div 16 = n div 256" by (simp add: div_mult2_eq)
  have b: "n div 256 div 16 = n div 4096" by (simp add: div_mult2_eq)
  have e1: "16 * (n div 16) + n mod 16 = n" by simp
  have e2: "16 * (n div 16 div 16) + n div 16 mod 16 = n div 16" by simp
  have e3: "16 * (n div 256 div 16) + n div 256 mod 16 = n div 256" by simp
  show ?thesis using a b e1 e2 e3 by linarith
qed

lemma hex4_unicode: 
  "hex4 (hex_char (unat c div 4096)) (hex_char (unat c div 256 mod 16))
        (hex_char (unat c div 16 mod 16)) (hex_char (unat c mod 16)) = Some (c :: jschar)"
proof -
  have lt: "unat c < 65536" using unsigned_less [of c] by simp
  then have a: "unat c div 4096 < 16" by simp
  have "hex4 (hex_char (unat c div 4096)) (hex_char (unat c div 256 mod 16))
        (hex_char (unat c div 16 mod 16)) (hex_char (unat c mod 16)) 
       = Some (of_nat (4096 * (unat c div 4096) + 256 * (unat c div 256 mod 16)
             + 16 * (unat c div 16 mod 16) + unat c mod 16))"
    unfolding hex4_def using a by (simp add: hex_val_hex_char del: of_nat_add of_nat_mult)
  also have "\<dots> = Some (of_nat (unat c))" by (simp only: nibbles)
  finally show ?thesis by simp
qed

lemma parse_chars_quote_unit:
  assumes "parse_chars s = Some (v, r)"
  shows "parse_chars (quote_unit c @ s) = Some (c # v, r)"
proof -
  consider (esc) "c = 8 \<or> c = 9 \<or> c = 10 \<or> c = 12 \<or> c = 13 \<or> c = 34 \<or> c = 92"
    | (uni) "\<not> (c = 8 \<or> c = 9 \<or> c = 10 \<or> c = 12 \<or> c = 13 \<or> c = 34 \<or> c = 92)"
        "c < 32 \<or> is_high_surrogate c \<or> is_low_surrogate c"
    | (raw) "\<not> (c = 8 \<or> c = 9 \<or> c = 10 \<or> c = 12 \<or> c = 13 \<or> c = 34 \<or> c = 92)"
        "\<not> (c < 32 \<or> is_high_surrogate c \<or> is_low_surrogate c)"
    by blast
  then show ?thesis
  proof cases
    case esc
    then show ?thesis using assms
      by (auto simp: quote_unit_def unescape_def)
  next
    case uni
    then have q: "quote_unit c = unicode_escape c" by (simp add: quote_unit_def)
    show ?thesis unfolding q unicode_escape_def using assms
      by (simp add: hex4_unicode)
  next
    case raw
    then have q: "quote_unit c = [c]" by (simp add: quote_unit_def)
    show ?thesis unfolding q using assms raw by simp
  qed
qed

lemma parse_chars_quote_units:
  "parse_chars (quote_units s @ 34 # rest) = Some (s, rest)"
proof (induction s rule: quote_units.induct)
  case 1
  then show ?case by simp
next
  case (2 c)
  have "parse_chars (34 # rest) = Some ([], rest)" by simp
  from parse_chars_quote_unit [OF this, of c] show ?case by simp
next
  case (3 c d s)
  show ?case
  proof (cases "is_high_surrogate c \<and> is_low_surrogate d")
    case True
    then have c: "c \<noteq> 34" "c \<noteq> 92" "\<not> c < 32" and d: "d \<noteq> 34" "d \<noteq> 92" "\<not> d < 32"
      by (auto simp: is_high_surrogate_def is_low_surrogate_def word_le_nat_alt word_less_nat_alt)
    from True 3 have ih: "parse_chars (quote_units s @ 34 # rest) = Some (s, rest)" by simp
    have "quote_units (c # d # s) = c # d # quote_units s" using True by simp
    then show ?thesis using c d ih by simp
  next
    case False
    with 3 have ih: "parse_chars (quote_units (d # s) @ 34 # rest) = Some (d # s, rest)" by simp
    have "quote_units (c # d # s) = quote_unit c @ quote_units (d # s)" using False by auto
    then show ?thesis using parse_chars_quote_unit [OF ih, of c] by simp
  qed
qed

lemma parse_chars_QuoteJSONString:
  "QuoteJSONString s @ rest = 34 # quote_units s @ 34 # rest"
  by (simp add: QuoteJSONString_def)

lemma value_end_num_end: "value_end rest \<Longrightarrow> num_end rest"
  by (cases rest) (auto simp: value_end_def num_end_def is_digit_def)

subsection \<open>Object properties\<close>

lemma keys_ordered_snoc:
  "keys_ordered (ks @ [k]) \<Longrightarrow>
     keys_ordered ks \<and> (\<forall>k' \<in> set ks. is_array_index k \<longrightarrow> is_array_index k' \<and> digits_value k' < digits_value k)"
  by (induction ks) (auto simp: list_all_iff)

lemma obj_put_new:
  assumes "k \<notin> fst ` set acc"
    and "\<forall>k' \<in> fst ` set acc. is_array_index k \<longrightarrow> is_array_index k' \<and> digits_value k' < digits_value k"
  shows "obj_put k v acc = acc @ [(k, v)]"
  using assms
proof (induction acc)
  case Nil
  then show ?case by simp
next
  case (Cons a acc)
  obtain k' v' where a: "a = (k', v')" by (cases a)
  from Cons.prems a have ne: "k' \<noteq> k" by auto
  from Cons.prems a have ord: "is_array_index k \<longrightarrow> is_array_index k' \<and> digits_value k' < digits_value k"
    by auto
  have ih: "obj_put k v acc = acc @ [(k, v)]"
    using Cons by auto
  show ?case using a ne ord ih by auto
qed

lemma put_all_wf:
  "distinct (map fst (acc @ kvs)) \<Longrightarrow> keys_ordered (map fst (acc @ kvs)) \<Longrightarrow> put_all acc kvs = acc @ kvs"
proof (induction kvs arbitrary: acc)
  case Nil
  then show ?case by (simp add: put_all_def)
next
  case (Cons kv kvs)
  have split: "acc @ kv # kvs = (acc @ [kv]) @ kvs" by simp
  have ko: "keys_ordered (map fst acc @ [fst kv])"
  proof -
    have "\<And>xs ys. keys_ordered (xs @ ys) \<Longrightarrow> keys_ordered xs"
    proof -
      fix xs ys :: "jsstring list"
      show "keys_ordered (xs @ ys) \<Longrightarrow> keys_ordered xs"
        by (induction xs) (auto simp: list_all_iff)
    qed
    from this [of "map fst acc @ [fst kv]" "map fst kvs"] Cons.prems(2) show ?thesis by simp
  qed
  from keys_ordered_snoc [OF ko]
  have ord: "\<forall>k' \<in> fst ` set acc. is_array_index (fst kv) \<longrightarrow> is_array_index k' \<and> digits_value k' < digits_value (fst kv)"
    by simp
  from Cons.prems(1) have new: "fst kv \<notin> fst ` set acc" by auto
  have step: "obj_put (fst kv) (snd kv) acc = acc @ [kv]"
    using obj_put_new [OF new ord, of "snd kv"] by simp
  have "put_all acc (kv # kvs) = put_all (acc @ [kv]) kvs"
    by (simp add: put_all_def step)
  also have "\<dots> = (acc @ [kv]) @ kvs"
    using Cons.IH [of "acc @ [kv]"] Cons.prems by simp
  finally show ?case by simp
qed

subsection \<open>White space\<close>

lemma skip_ws_first:
  "list_all is_json_ws ws \<Longrightarrow> \<not> is_json_ws c \<Longrightarrow> skip_ws (ws @ c # t) = c # t"
  by (simp add: skip_ws_def dropWhile_append3 list_all_iff)

lemma skip_ws_nonws: "\<not> is_json_ws c \<Longrightarrow> skip_ws (c # t) = c # t"
  by (simp add: skip_ws_def)

lemma spaces_ws: "list_all is_json_ws (spaces n)"
  by (simp add: spaces_def list_all_iff is_json_ws_def)

lemma nl_spaces_ws: "list_all is_json_ws (10 # spaces n)"
  using spaces_ws [of n] by (simp add: is_json_ws_def)

subsection \<open>First characters\<close>

lemma int_to_string_first:
  "\<exists>c r. int_to_string i = c # r \<and> (c = 45 \<or> is_digit c)"
proof (cases "i < 0")
  case True
  then show ?thesis by (simp add: int_to_string_def js_def)
next
  case False
  obtain c r where cr: "nat_digits (nat i) = c # r"
    using nat_digits_nonempty [of "nat i"] by (cases "nat_digits (nat i)") auto
  have "is_digit c" using nat_digits_all [of "nat i"] cr by simp
  with cr False show ?thesis by (simp add: int_to_string_def)
qed

lemma digit_or_minus_starter: "c = 45 \<or> is_digit c \<Longrightarrow> starter c \<and> c \<noteq> 91 \<and> c \<noteq> 123 \<and> c \<noteq> 34"
  by (auto simp: starter_def is_digit_def is_json_ws_def word_le_nat_alt)

lemma serialize_first:
  "wf_json v \<Longrightarrow> \<exists>c r. serialize ind v = c # r \<and> starter c"
proof (cases v)
  case (JNum i)
  obtain c r where "int_to_string i = c # r" "c = 45 \<or> is_digit c"
    using int_to_string_first by blast
  with JNum show ?thesis using digit_or_minus_starter [of c] by simp
qed (auto simp: js_def starter_def is_json_ws_def QuoteJSONString_def)

lemma parses_backI:
  assumes "\<And>n ind ws rest. fuel_needed v \<le> Suc n \<Longrightarrow> list_all is_json_ws ws \<Longrightarrow> value_end rest \<Longrightarrow>
             parse_value (Suc n) (ws @ serialize ind v @ rest) = Some (v, rest)"
    and "0 < fuel_needed v"
  shows "parses_back v"
  unfolding parses_back_def
proof (intro allI impI)
  fix f ind ws rest
  assume a: "fuel_needed v \<le> f" "list_all is_json_ws ws" "value_end rest"
  with assms(2) obtain n where "f = Suc n" by (cases f) auto
  with a assms(1) show "parse_value f (ws @ serialize ind v @ rest) = Some (v, rest)" by simp
qed

lemma parses_backD:
  "parses_back v \<Longrightarrow> fuel_needed v \<le> f \<Longrightarrow> list_all is_json_ws ws \<Longrightarrow> value_end rest \<Longrightarrow>
     parse_value f (ws @ serialize ind v @ rest) = Some (v, rest)"
  by (simp add: parses_back_def)

lemma fuel_needed_pos: "0 < fuel_needed v"
  by (cases v) simp_all

lemma parses_back_null: "parses_back JNull"
  by (rule parses_backI) (simp_all add: skip_ws_first is_json_ws_def js_def startsWith_def is_digit_def)

lemma parses_back_bool: "parses_back (JBool b)"
  by (rule parses_backI) (simp_all add: skip_ws_first is_json_ws_def js_def startsWith_def is_digit_def)

lemma parses_back_str: "parses_back (JStr s)"
  by (rule parses_backI)
    (simp_all add: skip_ws_first is_json_ws_def QuoteJSONString_def parse_chars_quote_units)

lemma parses_back_num: "parses_back (JNum i)"
proof (rule parses_backI)
  fix n ind ws rest
  assume ws: "list_all is_json_ws ws" and e: "value_end rest"
  obtain c r where cr: "int_to_string i = c # r" and c: "c = 45 \<or> is_digit c"
    using int_to_string_first by blast
  from digit_or_minus_starter [OF c]
  have st: "\<not> is_json_ws c" "c \<noteq> 91" "c \<noteq> 123" "c \<noteq> 34" by (simp_all add: starter_def)
  have "parse_value (Suc n) (ws @ c # r @ rest) = parse_number (c # r @ rest)"
    using ws st c by (simp add: skip_ws_first)
  also have "\<dots> = Some (JNum i, rest)"
    using parse_number_int [OF value_end_num_end [OF e], of i] cr by simp
  finally show "parse_value (Suc n) (ws @ serialize ind (JNum i) @ rest) = Some (JNum i, rest)"
    using cr by simp
qed simp

lemma elements_parse_back:
  assumes "\<forall>v \<in> set vs. wf_json v \<and> parses_back v" and "vs \<noteq> []"
    and "sum_list (map (\<lambda>v. Suc (fuel_needed v)) vs) \<le> f" and "list_all is_json_ws ws"
  shows "parse_elements f
           (ws @ join_with (44 # 10 # spaces k) (map (serialize k) vs) @ 10 # spaces ind @ 93 # rest)
         = Some (vs, rest)"
  using assms
proof (induction vs arbitrary: f ws)
  case Nil
  then show ?case by simp
next
  case (Cons v vs)
  from Cons.prems(3) obtain n where f: "f = Suc n" by (cases f) auto
  from Cons.prems(1) have pbv: "parses_back v" by simp
  from Cons.prems(3) f have fv: "fuel_needed v \<le> n" by simp
  show ?case
  proof (cases "vs = []")
    case True
    have e: "value_end (10 # spaces ind @ 93 # rest)" by (simp add: value_end_def)
    have "parse_value n (ws @ serialize k v @ 10 # spaces ind @ 93 # rest)
            = Some (v, 10 # spaces ind @ 93 # rest)"
      by (rule parses_backD [OF pbv fv Cons.prems(4) e])
    moreover have "skip_ws (10 # spaces ind @ 93 # rest) = 93 # rest"
      using skip_ws_first [OF nl_spaces_ws, of 93 ind rest] by (simp add: is_json_ws_def)
    ultimately show ?thesis using True f by simp
  next
    case False
    then obtain v' vs' where vs: "vs = v' # vs'" by (cases vs) auto
    let ?tail = "10 # spaces k @ join_with (44 # 10 # spaces k) (map (serialize k) vs)
                   @ 10 # spaces ind @ 93 # rest"
    have e: "value_end (44 # ?tail)" by (simp add: value_end_def)
    have pv: "parse_value n (ws @ serialize k v @ 44 # ?tail) = Some (v, 44 # ?tail)"
      by (rule parses_backD [OF pbv fv Cons.prems(4) e])
    have sk: "skip_ws (44 # ?tail) = 44 # ?tail"
      by (rule skip_ws_nonws) (simp add: is_json_ws_def)
    have sum: "sum_list (map (\<lambda>v. Suc (fuel_needed v)) vs) \<le> n"
      using Cons.prems(3) f by simp
    have ih: "parse_elements n ((10 # spaces k) @ join_with (44 # 10 # spaces k) (map (serialize k) vs)
                   @ 10 # spaces ind @ 93 # rest) = Some (vs, rest)"
      using Cons.IH [OF _ False sum nl_spaces_ws] Cons.prems(1) by simp
    have jn: "join_with (44 # 10 # spaces k) (map (serialize k) (v # vs))
                = serialize k v @ 44 # 10 # spaces k @ join_with (44 # 10 # spaces k) (map (serialize k) vs)"
      using vs by simp
    show ?thesis
      unfolding f jn using pv sk ih by simp
  qed
qed

lemma members_parse_back:
  assumes "\<forall>kv \<in> set kvs. wf_json (snd kv) \<and> parses_back (snd kv)" and "kvs \<noteq> []"
    and "sum_list (map (\<lambda>kv. Suc (fuel_needed (snd kv))) kvs) \<le> f" and "list_all is_json_ws ws"
  shows "parse_members f acc
           (ws @ join_with (44 # 10 # spaces k)
                   (map (\<lambda>kv. QuoteJSONString (fst kv) @ [58, 32] @ serialize k (snd kv)) kvs)
               @ 10 # spaces ind @ 125 # rest)
         = Some (put_all acc kvs, rest)"
  using assms
proof (induction kvs arbitrary: f ws acc)
  case Nil
  then show ?case by simp
next
  case (Cons kv kvs)
  from Cons.prems(3) obtain n where f: "f = Suc n" by (cases f) auto
  from Cons.prems(1) have pbv: "parses_back (snd kv)" by simp
  from Cons.prems(3) f have fv: "fuel_needed (snd kv) \<le> n" by simp
  have sp: "list_all is_json_ws [32]" by (simp add: is_json_ws_def)
  have put: "put_all acc (kv # kvs) = put_all (obj_put (fst kv) (snd kv) acc) kvs"
    by (simp add: put_all_def)
  have head: "\<And>more. skip_ws (ws @ (QuoteJSONString (fst kv) @ [58, 32] @ serialize k (snd kv)) @ more)
        = 34 # quote_units (fst kv) @ 34 # 58 # 32 # serialize k (snd kv) @ more"
    using skip_ws_first [OF Cons.prems(4), of 34] by (simp add: QuoteJSONString_def is_json_ws_def)
  have colon: "\<And>more. skip_ws (58 # more) = 58 # more"
    by (rule skip_ws_nonws) (simp add: is_json_ws_def)
  show ?case
  proof (cases "kvs = []")
    case True
    have e: "value_end (10 # spaces ind @ 125 # rest)" by (simp add: value_end_def)
    have pv: "parse_value n ([32] @ serialize k (snd kv) @ 10 # spaces ind @ 125 # rest)
            = Some (snd kv, 10 # spaces ind @ 125 # rest)"
      by (rule parses_backD [OF pbv fv sp e])
    have sk: "skip_ws (10 # spaces ind @ 125 # rest) = 125 # rest"
      using skip_ws_first [OF nl_spaces_ws, of 125 ind rest] by (simp add: is_json_ws_def)
    show ?thesis
      unfolding f using True head [of "10 # spaces ind @ 125 # rest"] colon pv sk
      by (simp add: parse_chars_quote_units put_all_def)
  next
    case False
    then obtain kv' kvs' where kvs: "kvs = kv' # kvs'" by (cases kvs) auto
    let ?ser = "\<lambda>kv. QuoteJSONString (fst kv) @ [58, 32] @ serialize k (snd kv)"
    let ?tail = "10 # spaces k @ join_with (44 # 10 # spaces k) (map ?ser kvs)
                   @ 10 # spaces ind @ 125 # rest"
    have e: "value_end (44 # ?tail)" by (simp add: value_end_def)
    have pv: "parse_value n ([32] @ serialize k (snd kv) @ 44 # ?tail) = Some (snd kv, 44 # ?tail)"
      by (rule parses_backD [OF pbv fv sp e])
    have sk: "skip_ws (44 # ?tail) = 44 # ?tail"
      by (rule skip_ws_nonws) (simp add: is_json_ws_def)
    have sum: "sum_list (map (\<lambda>kv. Suc (fuel_needed (snd kv))) kvs) \<le> n"
      using Cons.prems(3) f by simp
    have ih: "parse_members n (obj_put (fst kv) (snd kv) acc)
                 ((10 # spaces k) @ join_with (44 # 10 # spaces k) (map ?ser kvs)
                   @ 10 # spaces ind @ 125 # rest) = Some (put_all (obj_put (fst kv) (snd kv) acc) kvs, rest)"
      using Cons.IH [OF _ False sum nl_spaces_ws] Cons.prems(1) by simp
    have jn: "join_with (44 # 10 # spaces k) (map ?ser (kv # kvs))
                = ?ser kv @ 44 # 10 # spaces k @ join_with (44 # 10 # spaces k) (map ?ser kvs)"
      using kvs by simp
    show ?thesis
      unfolding f jn put using head [of "44 # ?tail"] colon pv sk ih
      by (simp add: parse_chars_quote_units)
  qed
qed

lemma join_first:
  assumes "xs \<noteq> []" and "\<exists>c r. hd xs = c # r \<and> starter c"
  shows "\<exists>c t. join_with sep xs @ tl0 = c # t \<and> starter c"
proof -
  obtain x ys where xs: "xs = x # ys" using assms(1) by (cases xs) auto
  from assms(2) xs obtain c r where x: "x = c # r" "starter c" by auto
  show ?thesis using xs x by (cases ys) auto
qed

lemma wf_json_parses_back: "wf_json v \<Longrightarrow> parses_back v"
proof (induction v)
  case JNull
  show ?case by (rule parses_back_null)
next
  case (JBool b)
  show ?case by (rule parses_back_bool)
next
  case (JNum i)
  show ?case by (rule parses_back_num)
next
  case (JDec lit)
  then show ?case by simp
next
  case (JStr s)
  show ?case by (rule parses_back_str)
next
  case (JArr vs)
  then have all: "\<forall>v \<in> set vs. wf_json v \<and> parses_back v" by (simp add: list_all_iff)
  show ?case
  proof (rule parses_backI)
    fix n ind ws rest
    assume fuel: "fuel_needed (JArr vs) \<le> Suc n" and ws: "list_all is_json_ws ws"
      and e: "value_end rest"
    have br: "\<And>t. skip_ws (ws @ 91 # t) = 91 # t"
      using skip_ws_first [OF ws, of 91] by (simp add: is_json_ws_def)
    show "parse_value (Suc n) (ws @ serialize ind (JArr vs) @ rest) = Some (JArr vs, rest)"
    proof (cases "vs = []")
      case True
      have "skip_ws (93 # rest) = 93 # rest" by (rule skip_ws_nonws) (simp add: is_json_ws_def)
      then show ?thesis using True br by (simp add: js_def)
    next
      case False
      let ?k = "ind + 2"
      let ?body = "join_with (44 # 10 # spaces ?k) (map (serialize ?k) vs) @ 10 # spaces ind @ 93 # rest"
      have hdw: "\<exists>c r. hd (map (serialize ?k) vs) = c # r \<and> starter c"
        using False all serialize_first [of "hd vs" ?k] by (cases vs) auto
      from join_first [OF _ hdw, of "44 # 10 # spaces ?k" "10 # spaces ind @ 93 # rest"] False
      obtain c t where ct: "?body = c # t" "starter c" by auto
      have sk: "skip_ws (10 # spaces ?k @ ?body) = c # t"
        using skip_ws_first [OF nl_spaces_ws, of c ?k t] ct by (simp add: starter_def)
      have c93: "c \<noteq> 93" using ct by (simp add: starter_def)
      have sum: "sum_list (map (\<lambda>v. Suc (fuel_needed v)) vs) \<le> n" using fuel by simp
      have el: "parse_elements n ((10 # spaces ?k) @ ?body) = Some (vs, rest)"
        by (rule elements_parse_back [OF all False sum nl_spaces_ws])
      have ser: "serialize ind (JArr vs) @ rest = 91 # 10 # spaces ?k @ ?body"
        using False by simp
      show ?thesis unfolding ser using br sk c93 el by simp
    qed
  qed (rule fuel_needed_pos)
next
  case (JObj kvs)
  have all: "\<forall>kv \<in> set kvs. wf_json (snd kv) \<and> parses_back (snd kv)"
  proof
    fix kv assume kv: "kv \<in> set kvs"
    obtain k v where p: "kv = (k, v)" by (cases kv)
    from JObj.prems kv have w: "wf_json (snd kv)" by (simp add: list_all_iff)
    from JObj.IH [of kv v] kv p w have "parses_back v" by simp
    with w p show "wf_json (snd kv) \<and> parses_back (snd kv)" by simp
  qed
  from JObj.prems have d: "distinct (map fst ([] @ kvs))" "keys_ordered (map fst ([] @ kvs))"
    by simp_all
  have pa: "put_all [] kvs = kvs" using put_all_wf [OF d] by simp
  show ?case
  proof (rule parses_backI)
    fix n ind ws rest
    assume fuel: "fuel_needed (JObj kvs) \<le> Suc n" and ws: "list_all is_json_ws ws"
      and e: "value_end rest"
    have br: "\<And>t. skip_ws (ws @ 123 # t) = 123 # t"
      using skip_ws_first [OF ws, of 123] by (simp add: is_json_ws_def)
    show "parse_value (Suc n) (ws @ serialize ind (JObj kvs) @ rest) = Some (JObj kvs, rest)"
    proof (cases "kvs = []")
      case True
      have "skip_ws (125 # rest) = 125 # rest" by (rule skip_ws_nonws) (simp add: is_json_ws_def)
      then show ?thesis using True br by (simp add: js_def)
    next
      case False
      let ?k = "ind + 2"
      let ?ser = "\<lambda>kv. QuoteJSONString (fst kv) @ [58, 32] @ serialize ?k (snd kv)"
      let ?body = "join_with (44 # 10 # spaces ?k) (map ?ser kvs) @ 10 # spaces ind @ 125 # rest"
      have hdw: "\<exists>c r. hd (map ?ser kvs) = c # r \<and> starter c"
        using False by (cases kvs) (auto simp: QuoteJSONString_def starter_def is_json_ws_def)
      from join_first [OF _ hdw, of "44 # 10 # spaces ?k" "10 # spaces ind @ 125 # rest"] False
      obtain c t where ct: "?body = c # t" "starter c" by auto
      have sk: "skip_ws (10 # spaces ?k @ ?body) = c # t"
        using skip_ws_first [OF nl_spaces_ws, of c ?k t] ct by (simp add: starter_def)
      have c125: "c \<noteq> 125" using ct by (simp add: starter_def)
      have sum: "sum_list (map (\<lambda>kv. Suc (fuel_needed (snd kv))) kvs) \<le> n" using fuel by simp
      have el: "parse_members n [] ((10 # spaces ?k) @ ?body) = Some (put_all [] kvs, rest)"
        by (rule members_parse_back [OF all False sum nl_spaces_ws])
      have ser: "serialize ind (JObj kvs) @ rest = 123 # 10 # spaces ?k @ ?body"
        using False by simp
      show ?thesis unfolding ser using br sk c125 el pa by simp
    qed
  qed (rule fuel_needed_pos)
qed

lemma join_with_length:
  "xs \<noteq> [] \<Longrightarrow> sep \<noteq> [] \<Longrightarrow> sum_list (map (\<lambda>x. Suc (length x)) xs) \<le> Suc (length (join_with sep xs))"
proof (induction sep xs rule: join_with.induct)
  case (1 sep)
  then show ?case by simp
next
  case (2 sep x)
  then show ?case by simp
next
  case (3 sep x y ys)
  then have ih: "sum_list (map (\<lambda>x. Suc (length x)) (y # ys)) \<le> Suc (length (join_with sep (y # ys)))"
    by simp
  have l: "Suc 0 \<le> length sep" using 3 by (cases sep) simp_all
  have e: "sum_list (map (\<lambda>x. Suc (length x)) (x # y # ys))
             = Suc (length x) + sum_list (map (\<lambda>x. Suc (length x)) (y # ys))"
    by simp
  have j: "length (join_with sep (x # y # ys)) = length x + length sep + length (join_with sep (y # ys))"
    by simp
  show ?case using ih l e j by linarith
qed

lemma fuel_bound: "wf_json v \<Longrightarrow> fuel_needed v \<le> length (serialize ind v)"
proof (induction v arbitrary: ind)
  case (JNum i)
  obtain c r where "int_to_string i = c # r" using int_to_string_first by blast
  then show ?case by simp
next
  case (JArr vs)
  show ?case
  proof (cases "vs = []")
    case True
    then show ?thesis by (simp add: js_def)
  next
    case False
    let ?k = "ind + 2"
    have "sum_list (map (\<lambda>v. Suc (fuel_needed v)) vs)
            \<le> sum_list (map (\<lambda>v. Suc (length (serialize ?k v))) vs)"
      using JArr by (intro sum_list_mono) (simp add: list_all_iff)
    also have "\<dots> = sum_list (map (\<lambda>x. Suc (length x)) (map (serialize ?k) vs))"
      by (simp add: comp_def)
    also have "\<dots> \<le> Suc (length (join_with (44 # 10 # spaces ?k) (map (serialize ?k) vs)))"
      using False by (intro join_with_length) simp_all
    finally show ?thesis using False by simp
  qed
next
  case (JObj kvs)
  show ?case
  proof (cases "kvs = []")
    case True
    then show ?thesis by (simp add: js_def)
  next
    case False
    let ?k = "ind + 2"
    let ?ser = "\<lambda>kv. QuoteJSONString (fst kv) @ [58, 32] @ serialize ?k (snd kv)"
    have "sum_list (map (\<lambda>kv. Suc (fuel_needed (snd kv))) kvs)
            \<le> sum_list (map (\<lambda>kv. Suc (length (?ser kv))) kvs)"
    proof (intro sum_list_mono)
      fix kv assume kv: "kv \<in> set kvs"
      obtain k v where p: "kv = (k, v)" by (cases kv)
      from JObj.prems kv have "wf_json (snd kv)" by (simp add: list_all_iff)
      with JObj.IH [of kv v ?k] kv p have "fuel_needed (snd kv) \<le> length (serialize ?k (snd kv))"
        by simp
      then show "Suc (fuel_needed (snd kv)) \<le> Suc (length (?ser kv))" by simp
    qed
    also have "\<dots> = sum_list (map (\<lambda>x. Suc (length x)) (map ?ser kvs))"
      by (simp add: comp_def)
    also have "\<dots> \<le> Suc (length (join_with (44 # 10 # spaces ?k) (map ?ser kvs)))"
      using False by (intro join_with_length) simp_all
    finally show ?thesis using False by simp
  qed
qed (simp_all add: js_def QuoteJSONString_def)

lemma JSON_roundtrip: "wf_json v \<Longrightarrow> JSON_parse (JSON_stringify v) = Some v"
proof -
  assume wf: "wf_json v"
  have fuel: "fuel_needed v \<le> 2 * length (serialize 0 v) + 2"
    using fuel_bound [OF wf, of 0] by simp
  have "parse_value (2 * length (serialize 0 v) + 2) ([] @ serialize 0 v @ []) = Some (v, [])"
    by (rule parses_backD [OF wf_json_parses_back [OF wf] fuel]) (simp_all add: value_end_def)
  then show ?thesis by (simp add: JSON_parse_def JSON_stringify_def skip_ws_def)
qed

subsection \<open>The bound on nested calls\<close>

lemma skip_ws_length: "length (skip_ws s) \<le> length s"
  by (simp add: skip_ws_def length_dropWhile_le)

lemma skip_ws_Cons_length: "skip_ws s = c # r \<Longrightarrow> length r < length s"
  using skip_ws_length [of s] by simp

lemma parse_chars_length: "parse_chars s = Some (v, r) \<Longrightarrow> length r < length s"
proof (induction s arbitrary: v r rule: parse_chars.induct)
  case 1
  then show ?case by simp
next
  case (2 c s)
  show ?case
  proof (cases "c = 34")
    case True
    with "2.prems" show ?thesis by simp
  next
    case c34: False
    show ?thesis
    proof (cases "c = 92")
      case True
      show ?thesis
      proof (cases s)
        case Nil
        with "2.prems" c34 True show ?thesis by simp
      next
        case (Cons e s')
        show ?thesis
        proof (cases "e = 117")
          case u: True
          from "2.prems" c34 True Cons u obtain h1 h2 h3 h4 s'' uu v' where
            s': "s' = h1 # h2 # h3 # h4 # s''" and h: "hex4 h1 h2 h3 h4 = Some uu"
            and p: "parse_chars s'' = Some (v', r)"
            by (auto split: list.splits option.splits)
          have "length r < length s''"
            using "2.IH"(1) [OF c34 True Cons u, of h1 "h2 # h3 # h4 # s''" h2 "h3 # h4 # s''" h3
                "h4 # s''" h4 s'' uu v' r] s' h p
            by simp
          with Cons s' show ?thesis by simp
        next
          case nu: False
          from "2.prems" c34 True Cons nu obtain ch v' where
            e: "unescape e = Some ch" and p: "parse_chars s' = Some (v', r)"
            by (auto split: option.splits)
          from "2.IH"(2) [OF c34 True Cons nu e p] have "length r < length s'" .
          with Cons show ?thesis by simp
        qed
      qed
    next
      case c92: False
      from "2.prems" c34 c92 obtain v' where lo: "\<not> c < 32" and p: "parse_chars s = Some (v', r)"
        by (auto split: option.splits if_splits)
      from "2.IH"(3) [OF c34 c92 lo p] show ?thesis by simp
    qed
  qed
qed

lemma parse_int_part_length: "parse_int_part s = Some (ds, r) \<Longrightarrow> length r < length s"
proof -
  assume a: "parse_int_part s = Some (ds, r)"
  then obtain c t where s: "s = c # t" by (cases s) (auto simp: parse_int_part_def)
  show ?thesis
  proof (cases "c = 48")
    case True
    with a s show ?thesis by (simp add: parse_int_part_def)
  next
    case False
    with a s have d: "is_digit c" and r: "r = dropWhile is_digit s"
      by (auto simp: parse_int_part_def split: if_splits)
    from d s r have "r = dropWhile is_digit t" by simp
    then have "length r \<le> length t" by (simp add: length_dropWhile_le)
    with s show ?thesis by simp
  qed
qed

lemma parse_frac_length: "parse_frac s = Some (fr, r) \<Longrightarrow> length r \<le> length s"
  by (cases s) (auto simp: parse_frac_def length_dropWhile_le le_SucI split: if_splits)

lemma parse_exp_length: "parse_exp s = Some (ex, r) \<Longrightarrow> length r \<le> length s"
proof (cases s)
  case Nil
  assume "parse_exp s = Some (ex, r)"
  with Nil show ?thesis by (simp add: parse_exp_def)
next
  case (Cons c t)
  assume a: "parse_exp s = Some (ex, r)"
  show ?thesis
  proof (cases "c = 101 \<or> c = 69")
    case True
    with a Cons obtain k where "r = dropWhile is_digit (drop k t)"
      by (auto simp: parse_exp_def Let_def split: if_splits)
    with length_dropWhile_le [of is_digit "drop k t"] have "length r \<le> length t" by simp
    with Cons show ?thesis by simp
  next
    case False
    with a Cons show ?thesis by (auto simp: parse_exp_def)
  qed
qed

lemma parse_number_length: "parse_number s = Some (v, r) \<Longrightarrow> length r < length s"
proof -
  assume a: "parse_number s = Some (v, r)"
  let ?s1 = "if (case s of [] \<Rightarrow> False | c # r \<Rightarrow> c = 45) then tl s else s"
  from a obtain ds s2 fr s3 ex where
    i: "parse_int_part ?s1 = Some (ds, s2)" and f: "parse_frac s2 = Some (fr, s3)"
    and e: "parse_exp s3 = Some (ex, r)"
    by (auto simp: parse_number_def Let_def split: option.splits if_splits)
  have "length ?s1 \<le> length s" by simp
  with parse_int_part_length [OF i] parse_frac_length [OF f] parse_exp_length [OF e]
  show ?thesis by linarith
qed

lemma parse_value_cases:
  assumes "parse_value (Suc n) s = Some (v, r)"
  obtains
    (empty_array) r1 where "skip_ws s = 91 # r1" "skip_ws r1 = 93 # r" "v = JArr []"
  | (array) r1 vs where "skip_ws s = 91 # r1" "\<exists>c' r'. skip_ws r1 = c' # r' \<and> c' \<noteq> 93"
      "parse_elements n r1 = Some (vs, r)" "v = JArr vs"
  | (empty_object) r1 where "skip_ws s = 123 # r1" "skip_ws r1 = 125 # r" "v = JObj []"
  | (object) r1 kvs where "skip_ws s = 123 # r1" "\<exists>c' r'. skip_ws r1 = c' # r' \<and> c' \<noteq> 125"
      "parse_members n [] r1 = Some (kvs, r)" "v = JObj kvs"
  | (atom) "\<And>g. parse_value (Suc g) s = Some (v, r)" "length r < length s"
proof -
  from assms obtain c r1 where sk: "skip_ws s = c # r1"
    by (cases "skip_ws s") auto
  have len: "length r1 < length s" by (rule skip_ws_Cons_length [OF sk])
  show ?thesis
  proof (cases "c = 91")
    case True
    from assms sk True obtain c' r' where sk1: "skip_ws r1 = c' # r'"
      by (cases "skip_ws r1") auto
    show ?thesis
    proof (cases "c' = 93")
      case True
      with assms sk \<open>c = 91\<close> sk1 show ?thesis by (intro empty_array [of r1]) auto
    next
      case False
      with assms sk \<open>c = 91\<close> sk1 obtain vs where "parse_elements n r1 = Some (vs, r)" "v = JArr vs"
        by (auto split: option.splits)
      with sk \<open>c = 91\<close> sk1 False show ?thesis by (intro array [of r1 vs]) auto
    qed
  next
    case n91: False
    show ?thesis
    proof (cases "c = 123")
      case True
      from assms sk True obtain c' r' where sk1: "skip_ws r1 = c' # r'"
        by (cases "skip_ws r1") auto
      show ?thesis
      proof (cases "c' = 125")
        case True
        with assms sk \<open>c = 123\<close> sk1 show ?thesis by (intro empty_object [of r1]) auto
      next
        case False
        with assms sk \<open>c = 123\<close> sk1 obtain kvs where "parse_members n [] r1 = Some (kvs, r)" "v = JObj kvs"
          by (auto split: option.splits)
        with sk \<open>c = 123\<close> sk1 False show ?thesis by (intro object [of r1 kvs]) auto
      qed
    next
      case n123: False
      have indep: "\<And>g. parse_value (Suc g) s = parse_value (Suc n) s"
        using sk n91 n123 by simp
      have "length r < length s"
      proof (cases "c = 34")
        case True
        with assms sk n91 n123 obtain str where "parse_chars r1 = Some (str, r)"
          by (auto split: option.splits)
        from parse_chars_length [OF this] len show ?thesis by simp
      next
        case n34: False
        show ?thesis
        proof (cases "c = 45 \<or> is_digit c")
          case True
          with assms sk n91 n123 n34 have "parse_number (c # r1) = Some (v, r)" by auto
          from parse_number_length [OF this] len show ?thesis by simp
        next
          case False
          with assms sk n91 n123 n34 have "r = drop 4 (c # r1) \<or> r = drop 5 (c # r1)"
            by (auto split: if_splits)
          with len show ?thesis by auto
        qed
      qed
      with indep assms show ?thesis by (intro atom) auto
    qed
  qed
qed

lemma parse_elements_cases:
  assumes "parse_elements (Suc n) s = Some (vs, r)"
  obtains
    (last) v r1 where "parse_value n s = Some (v, r1)" "skip_ws r1 = 93 # r" "vs = [v]"
  | (more) v r1 r2 vs' where "parse_value n s = Some (v, r1)" "skip_ws r1 = 44 # r2"
      "parse_elements n r2 = Some (vs', r)" "vs = v # vs'"
proof -
  from assms obtain v r1 where pv: "parse_value n s = Some (v, r1)"
    by (auto split: option.splits)
  from assms pv obtain c r2 where sk: "skip_ws r1 = c # r2"
    by (cases "skip_ws r1") auto
  show ?thesis
  proof (cases "c = 44")
    case True
    with assms pv sk obtain vs' where "parse_elements n r2 = Some (vs', r)" "vs = v # vs'"
      by (auto split: option.splits)
    with pv sk True show ?thesis by (intro more [of v r1 r2 vs']) auto
  next
    case False
    with assms pv sk have "c = 93" "vs = [v]" "r = r2" by (auto split: if_splits)
    with pv sk show ?thesis by (intro last [of v r1]) auto
  qed
qed

lemma parse_members_cases:
  assumes "parse_members (Suc n) acc s = Some (kvs, r)"
  obtains
    (last) r0 k r1 r2 v r3 where "skip_ws s = 34 # r0" "parse_chars r0 = Some (k, r1)"
      "skip_ws r1 = 58 # r2" "parse_value n r2 = Some (v, r3)" "skip_ws r3 = 125 # r"
      "kvs = obj_put k v acc"
  | (more) r0 k r1 r2 v r3 r4 where "skip_ws s = 34 # r0" "parse_chars r0 = Some (k, r1)"
      "skip_ws r1 = 58 # r2" "parse_value n r2 = Some (v, r3)" "skip_ws r3 = 44 # r4"
      "parse_members n (obj_put k v acc) r4 = Some (kvs, r)"
proof -
  from assms obtain c r0 where sk: "skip_ws s = c # r0"
    by (cases "skip_ws s") auto
  from assms sk have c: "c = 34" by (auto split: if_splits)
  from assms sk c obtain k r1 where pc: "parse_chars r0 = Some (k, r1)"
    by (auto split: option.splits)
  from assms sk c pc obtain c1 r2 where sk1: "skip_ws r1 = c1 # r2"
    by (cases "skip_ws r1") auto
  from assms sk c pc sk1 have c1: "c1 = 58" by (auto split: if_splits)
  from assms sk c pc sk1 c1 obtain v r3 where pv: "parse_value n r2 = Some (v, r3)"
    by (auto split: option.splits)
  from assms sk c pc sk1 c1 pv obtain c3 r4 where sk3: "skip_ws r3 = c3 # r4"
    by (cases "skip_ws r3") auto
  show ?thesis
  proof (cases "c3 = 44")
    case True
    with assms sk c pc sk1 c1 pv sk3 have "parse_members n (obj_put k v acc) r4 = Some (kvs, r)"
      by auto
    with sk c pc sk1 c1 pv sk3 True show ?thesis by (intro more [of r0 k r1 r2 v r3 r4]) auto
  next
    case False
    with assms sk c pc sk1 c1 pv sk3 have "c3 = 125" "kvs = obj_put k v acc" "r = r4"
      by (auto split: if_splits)
    with sk c pc sk1 c1 pv sk3 show ?thesis by (intro last [of r0 k r1 r2 v r3]) auto
  qed
qed

lemma value_fuel_okD:
  "value_fuel_ok f \<Longrightarrow> parse_value f s = Some (v, r) \<Longrightarrow>
     length r < length s
     \<and> (\<forall>g. 2 * (length s - length r) \<le> Suc g \<longrightarrow> parse_value g s = Some (v, r))"
  unfolding value_fuel_ok_def by blast

lemma elements_fuel_okD:
  "elements_fuel_ok f \<Longrightarrow> parse_elements f s = Some (vs, r) \<Longrightarrow>
     length r < length s
     \<and> (\<forall>g. 2 * (length s - length r) \<le> g \<longrightarrow> parse_elements g s = Some (vs, r))"
  unfolding elements_fuel_ok_def by blast

lemma members_fuel_okD:
  "members_fuel_ok f \<Longrightarrow> parse_members f acc s = Some (kvs, r) \<Longrightarrow>
     length r < length s
     \<and> (\<forall>g. 2 * (length s - length r) \<le> g \<longrightarrow> parse_members g acc s = Some (kvs, r))"
  unfolding members_fuel_ok_def by blast

lemma value_step:
  assumes el: "elements_fuel_ok n" and me: "members_fuel_ok n"
  shows "value_fuel_ok (Suc n)"
  unfolding value_fuel_ok_def
proof (intro allI impI)
  fix s v r
  assume a: "parse_value (Suc n) s = Some (v, r)"
  from a show "length r < length s
        \<and> (\<forall>g. 2 * (length s - length r) \<le> Suc g \<longrightarrow> parse_value g s = Some (v, r))"
  proof (cases rule: parse_value_cases)
    case (empty_array r1)
    have l: "length r < length r1" "length r1 < length s"
      using skip_ws_Cons_length empty_array by blast+
    have "\<And>g. 2 * (length s - length r) \<le> Suc g \<Longrightarrow> parse_value g s = Some (v, r)"
    proof -
      fix g assume "2 * (length s - length r) \<le> Suc g"
      with l obtain g' where "g = Suc g'" by (cases g) auto
      with empty_array show "parse_value g s = Some (v, r)" by simp
    qed
    with l show ?thesis by auto
  next
    case (array r1 vs)
    from elements_fuel_okD [OF el array(3)] have e: "length r < length r1"
      "\<And>g. 2 * (length r1 - length r) \<le> g \<Longrightarrow> parse_elements g r1 = Some (vs, r)"
      by blast+
    have l: "length r1 < length s" using skip_ws_Cons_length array(1) by blast
    have "\<And>g. 2 * (length s - length r) \<le> Suc g \<Longrightarrow> parse_value g s = Some (v, r)"
    proof -
      fix g assume g: "2 * (length s - length r) \<le> Suc g"
      with l e(1) obtain g' where g': "g = Suc g'" by (cases g) auto
      with g l e(1) have "2 * (length r1 - length r) \<le> g'" by linarith
      from e(2) [OF this] array g' show "parse_value g s = Some (v, r)" by auto
    qed
    with l e(1) show ?thesis by auto
  next
    case (empty_object r1)
    have l: "length r < length r1" "length r1 < length s"
      using skip_ws_Cons_length empty_object by blast+
    have "\<And>g. 2 * (length s - length r) \<le> Suc g \<Longrightarrow> parse_value g s = Some (v, r)"
    proof -
      fix g assume "2 * (length s - length r) \<le> Suc g"
      with l obtain g' where "g = Suc g'" by (cases g) auto
      with empty_object show "parse_value g s = Some (v, r)" by simp
    qed
    with l show ?thesis by auto
  next
    case (object r1 kvs)
    from members_fuel_okD [OF me object(3)] have e: "length r < length r1"
      "\<And>g. 2 * (length r1 - length r) \<le> g \<Longrightarrow> parse_members g [] r1 = Some (kvs, r)"
      by blast+
    have l: "length r1 < length s" using skip_ws_Cons_length object(1) by blast
    have "\<And>g. 2 * (length s - length r) \<le> Suc g \<Longrightarrow> parse_value g s = Some (v, r)"
    proof -
      fix g assume g: "2 * (length s - length r) \<le> Suc g"
      with l e(1) obtain g' where g': "g = Suc g'" by (cases g) auto
      with g l e(1) have "2 * (length r1 - length r) \<le> g'" by linarith
      from e(2) [OF this] object g' show "parse_value g s = Some (v, r)" by auto
    qed
    with l e(1) show ?thesis by auto
  next
    case atom
    have "\<And>g. 2 * (length s - length r) \<le> Suc g \<Longrightarrow> parse_value g s = Some (v, r)"
    proof -
      fix g assume "2 * (length s - length r) \<le> Suc g"
      with atom(2) obtain g' where "g = Suc g'" by (cases g) auto
      with atom(1) show "parse_value g s = Some (v, r)" by simp
    qed
    with atom(2) show ?thesis by auto
  qed
qed

lemma elements_step:
  assumes va: "value_fuel_ok n" and el: "elements_fuel_ok n"
  shows "elements_fuel_ok (Suc n)"
  unfolding elements_fuel_ok_def
proof (intro allI impI)
  fix s vs r
  assume a: "parse_elements (Suc n) s = Some (vs, r)"
  from a show "length r < length s
        \<and> (\<forall>g. 2 * (length s - length r) \<le> g \<longrightarrow> parse_elements g s = Some (vs, r))"
  proof (cases rule: parse_elements_cases)
    case (last v r1)
    from value_fuel_okD [OF va last(1)] have e: "length r1 < length s"
      "\<And>g. 2 * (length s - length r1) \<le> Suc g \<Longrightarrow> parse_value g s = Some (v, r1)"
      by blast+
    have l: "length r < length r1" using skip_ws_Cons_length last(2) by blast
    have "\<And>g. 2 * (length s - length r) \<le> g \<Longrightarrow> parse_elements g s = Some (vs, r)"
    proof -
      fix g assume g: "2 * (length s - length r) \<le> g"
      with l e(1) obtain g' where g': "g = Suc g'" by (cases g) auto
      with g l e(1) have "2 * (length s - length r1) \<le> Suc g'" by linarith
      from e(2) [OF this] last g' show "parse_elements g s = Some (vs, r)" by simp
    qed
    with l e(1) show ?thesis by auto
  next
    case (more v r1 r2 vs')
    from value_fuel_okD [OF va more(1)] have e: "length r1 < length s"
      "\<And>g. 2 * (length s - length r1) \<le> Suc g \<Longrightarrow> parse_value g s = Some (v, r1)"
      by blast+
    from elements_fuel_okD [OF el more(3)] have e2: "length r < length r2"
      "\<And>g. 2 * (length r2 - length r) \<le> g \<Longrightarrow> parse_elements g r2 = Some (vs', r)"
      by blast+
    have l: "length r2 < length r1" using skip_ws_Cons_length more(2) by blast
    have "\<And>g. 2 * (length s - length r) \<le> g \<Longrightarrow> parse_elements g s = Some (vs, r)"
    proof -
      fix g assume g: "2 * (length s - length r) \<le> g"
      with l e(1) e2(1) obtain g' where g': "g = Suc g'" by (cases g) auto
      with g l e(1) e2(1) have 1: "2 * (length s - length r1) \<le> Suc g'" by linarith
      from g g' l e(1) e2(1) have 2: "2 * (length r2 - length r) \<le> g'" by linarith
      from e(2) [OF 1] e2(2) [OF 2] more g' show "parse_elements g s = Some (vs, r)" by simp
    qed
    with l e(1) e2(1) show ?thesis by auto
  qed
qed

lemma members_step:
  assumes va: "value_fuel_ok n" and me: "members_fuel_ok n"
  shows "members_fuel_ok (Suc n)"
  unfolding members_fuel_ok_def
proof (intro allI impI)
  fix acc s kvs r
  assume a: "parse_members (Suc n) acc s = Some (kvs, r)"
  from a show "length r < length s
        \<and> (\<forall>g. 2 * (length s - length r) \<le> g \<longrightarrow> parse_members g acc s = Some (kvs, r))"
  proof (cases rule: parse_members_cases)
    case (last r0 k r1 r2 v r3)
    from value_fuel_okD [OF va last(4)] have e: "length r3 < length r2"
      "\<And>g. 2 * (length r2 - length r3) \<le> Suc g \<Longrightarrow> parse_value g r2 = Some (v, r3)"
      by blast+
    have l: "length r0 < length s" "length r1 < length r0" "length r2 < length r1"
      "length r < length r3"
      using skip_ws_Cons_length parse_chars_length last by blast+
    have "\<And>g. 2 * (length s - length r) \<le> g \<Longrightarrow> parse_members g acc s = Some (kvs, r)"
    proof -
      fix g assume g: "2 * (length s - length r) \<le> g"
      with l e(1) obtain g' where g': "g = Suc g'" by (cases g) auto
      with g l e(1) have "2 * (length r2 - length r3) \<le> Suc g'" by linarith
      from e(2) [OF this] last g' show "parse_members g acc s = Some (kvs, r)" by simp
    qed
    with l e(1) show ?thesis by auto
  next
    case (more r0 k r1 r2 v r3 r4)
    from value_fuel_okD [OF va more(4)] have e: "length r3 < length r2"
      "\<And>g. 2 * (length r2 - length r3) \<le> Suc g \<Longrightarrow> parse_value g r2 = Some (v, r3)"
      by blast+
    from members_fuel_okD [OF me more(6)] have e2: "length r < length r4"
      "\<And>g. 2 * (length r4 - length r) \<le> g \<Longrightarrow> parse_members g (obj_put k v acc) r4 = Some (kvs, r)"
      by blast+
    have l: "length r0 < length s" "length r1 < length r0" "length r2 < length r1"
      "length r4 < length r3"
      using skip_ws_Cons_length parse_chars_length more by blast+
    have "\<And>g. 2 * (length s - length r) \<le> g \<Longrightarrow> parse_members g acc s = Some (kvs, r)"
    proof -
      fix g assume g: "2 * (length s - length r) \<le> g"
      with l e(1) e2(1) obtain g' where g': "g = Suc g'" by (cases g) auto
      with g l e(1) e2(1) have 1: "2 * (length r2 - length r3) \<le> Suc g'" by linarith
      from g g' l e(1) e2(1) have 2: "2 * (length r4 - length r) \<le> g'" by linarith
      from e(2) [OF 1] e2(2) [OF 2] more g' show "parse_members g acc s = Some (kvs, r)" by simp
    qed
    with l e(1) e2(1) show ?thesis by auto
  qed
qed

lemma fuel_ok: "value_fuel_ok f \<and> elements_fuel_ok f \<and> members_fuel_ok f"
proof (induction f)
  case 0
  show ?case by (simp add: value_fuel_ok_def elements_fuel_ok_def members_fuel_ok_def)
next
  case (Suc n)
  then show ?case by (simp add: value_step elements_step members_step)
qed

text \<open>
  The bound of \<open>JSON_parse\<close> is never the reason for a rejection: a text that the parser
  accepts with some bound is accepted by \<open>JSON_parse\<close>, with the same value.
\<close>

lemma JSON_parse_complete:
  assumes "parse_value f s = Some (v, r)" and "skip_ws r = []"
  shows "JSON_parse s = Some v"
proof -
  from fuel_ok [of f] have "value_fuel_ok f" by simp
  from value_fuel_okD [OF this assms(1)] have
    "\<And>g. 2 * (length s - length r) \<le> Suc g \<Longrightarrow> parse_value g s = Some (v, r)"
    by blast
  from this [of "2 * length s + 2"] have "parse_value (2 * length s + 2) s = Some (v, r)"
    by simp
  with assms(2) show ?thesis by (simp add: JSON_parse_def)
qed

section \<open>The card store\<close>

lemma DATA_FILE_eq: "DATA_FILE = js ''/app/data.json''"
  by (simp add: DATA_FILE_def dirname_def path_join_def path_normalize_def js_def)

lemma LOG_DIR_eq: "LOG_DIR = js ''/app/logs''"
  by (simp add: LOG_DIR_def dirname_def path_join_def path_normalize_def js_def)

lemma keys_not_index:
  "\<not> is_array_index (js ''id'')" "\<not> is_array_index (js ''title'')"
  "\<not> is_array_index (js ''url'')" "\<not> is_array_index (js ''color'')"
  by (simp_all add: js_def is_array_index_def is_digit_def)

lemma wf_card_json: "is_safe_integer (card_id c) \<Longrightarrow> wf_json (card_json c)"
  using keys_not_index by (simp add: card_json_def) (simp add: js_def)

lemma wf_cards_json: "\<forall>c \<in> set cs. is_safe_integer (card_id c) \<Longrightarrow> wf_json (cards_json cs)"
  by (simp add: cards_json_def list_all_iff wf_card_json)

lemma card_json_inj: "card_json a = card_json b \<Longrightarrow> a = b"
  by (cases a, cases b) (simp add: card_json_def)

lemma cards_json_inj: "cards_json as = cards_json bs \<Longrightarrow> as = bs"
proof -
  assume "cards_json as = cards_json bs"
  then have "map card_json as = map card_json bs" by (simp add: cards_json_def)
  moreover have "inj card_json" by (rule injI) (rule card_json_inj)
  ultimately show ?thesis by (simp add: inj_map_eq_map)
qed

lemma get_cards_stored:
  assumes "readFileSync fs DATA_FILE = Inr (JSON_stringify v)" and "wf_json v"
  shows "get_cards fs = Response 200 (JsonBody v)"
  using assms by (simp add: get_cards_def JSON_roundtrip)

lemma post_cards_success:
  assumes "post_cards fs b = (fs', Response 200 (JsonBody (JObj [(js ''success'', JBool True)])))"
  shows "writeFileSync fs DATA_FILE (JSON_stringify b) = Inr fs'"
  using assms by (auto simp: post_cards_def split: sum.splits)

lemma writeFileSync_content:
  assumes "writeFileSync fs p d = Inr fs'"
  shows "\<exists>r. fs' p = Regular r True d"
  using assms by (auto simp: writeFileSync_def split: fnode.splits option.splits if_splits)

lemma written_then_read:
  assumes "writeFileSync fs p d = Inr fs'" and "readFileSync fs' p = Inr text"
  shows "text = d"
  using writeFileSync_content [OF assms(1)] assms(2)
  by (auto simp: readFileSync_def split: if_splits)

text \<open>
  Claim C1. For every sequence of cards (with safe-integer ids), when replace --- the POST
  handler given the array of the cards as request body --- reports success and the stored
  document can be read back, load --- the GET handler --- answers with the same array: the
  same cards in the same order, with the same id, title, url and color, since two
  sequences of cards with the same array are equal.
\<close>

theorem C1_replace_then_load:
  assumes "\<forall>c \<in> set cards. is_safe_integer (card_id c)"
    and "post_cards fs (cards_json cards) = (fs', Response 200 (JsonBody (JObj [(js ''success'', JBool True)])))"
    and "readFileSync fs' DATA_FILE = Inr text"
  shows "get_cards fs' = Response 200 (JsonBody (cards_json cards))
         \<and> (\<forall>cs. cards_json cs = cards_json cards \<longrightarrow> cs = cards)"
proof -
  have w: "writeFileSync fs DATA_FILE (JSON_stringify (cards_json cards)) = Inr fs'"
    by (rule post_cards_success [OF assms(2)])
  have "text = JSON_stringify (cards_json cards)"
    by (rule written_then_read [OF w assms(3)])
  with assms(3) have "get_cards fs' = Response 200 (JsonBody (cards_json cards))"
    by (simp add: get_cards_stored wf_cards_json [OF assms(1)])
  then show ?thesis using cards_json_inj by blast
qed

theorem C1_replace_then_load_example:
  "is_safe_integer 1 \<and> is_safe_integer 3
   \<and> post_cards empty_disk (cards_json example_cards)
       = (disk_with_data (JSON_stringify (cards_json example_cards)), ok_response)
   \<and> readFileSync (disk_with_data (JSON_stringify (cards_json example_cards))) DATA_FILE
       = Inr (JSON_stringify (cards_json example_cards))
   \<and> get_cards (disk_with_data (JSON_stringify (cards_json example_cards)))
       = Response 200 (JsonBody (cards_json example_cards))"
proof -
  have s: "\<forall>c \<in> set example_cards. is_safe_integer (card_id c)"
    by (simp add: example_cards_def is_safe_integer_def)
  have p: "post_cards empty_disk (cards_json example_cards)
       = (disk_with_data (JSON_stringify (cards_json example_cards)),
          Response 200 (JsonBody (JObj [(js ''success'', JBool True)])))"
    by (simp add: post_cards_def writeFileSync_def empty_disk_def disk_with_data_def)
  have r: "readFileSync (disk_with_data (JSON_stringify (cards_json example_cards))) DATA_FILE
       = Inr (JSON_stringify (cards_json example_cards))"
    by (simp add: readFileSync_def disk_with_data_def)
  from C1_replace_then_load [OF s p r] p r show ?thesis
    by (simp add: is_safe_integer_def ok_response_def)
qed

lemma parse_garbage: "JSON_parse (js ''not json'') = None"
  by code_simp

text \<open>
  Claim C5. Whatever the state of the card document --- absent, a directory, a file that
  may not be read, or a file whose text \<open>JSON.parse\<close> rejects --- load answers with an
  empty array; and in every state of the file system it answers with status 200 and a JSON
  value: no branch of the handler throws.
\<close>

theorem C5_load_never_fails:
  "(\<forall>c. fs DATA_FILE = Missing c \<longrightarrow> get_cards fs = Response 200 (JsonBody (JArr [])))
   \<and> (\<forall>l names. fs DATA_FILE = Folder l names \<longrightarrow> get_cards fs = Response 200 (JsonBody (JArr [])))
   \<and> (\<forall>w text. fs DATA_FILE = Regular False w text \<longrightarrow> get_cards fs = Response 200 (JsonBody (JArr [])))
   \<and> (\<forall>r w text. fs DATA_FILE = Regular r w text \<and> JSON_parse text = None
         \<longrightarrow> get_cards fs = Response 200 (JsonBody (JArr [])))
   \<and> (\<exists>v. get_cards fs = Response 200 (JsonBody v))"
proof (intro conjI allI impI)
  show "\<exists>v. get_cards fs = Response 200 (JsonBody v)"
    by (auto simp: get_cards_def split: sum.splits option.splits)
qed (auto simp: get_cards_def readFileSync_def)

theorem C5_load_never_fails_example:
  "empty_disk DATA_FILE = Missing None
   \<and> get_cards empty_disk = Response 200 (JsonBody (JArr []))
   \<and> unreadable_disk DATA_FILE = Regular False True (js ''[]'')
   \<and> get_cards unreadable_disk = Response 200 (JsonBody (JArr []))
   \<and> disk_with_data (js ''not json'') DATA_FILE = Regular True True (js ''not json'')
   \<and> JSON_parse (js ''not json'') = None
   \<and> get_cards (disk_with_data (js ''not json'')) = Response 200 (JsonBody (JArr []))"
proof -
  have a: "empty_disk DATA_FILE = Missing None" by (simp add: empty_disk_def)
  have b: "unreadable_disk DATA_FILE = Regular False True (js ''[]'')"
    by (simp add: unreadable_disk_def)
  have c: "disk_with_data (js ''not json'') DATA_FILE = Regular True True (js ''not json'')"
    by (simp add: disk_with_data_def)
  from C5_load_never_fails [of empty_disk] a
  have 1: "get_cards empty_disk = Response 200 (JsonBody (JArr []))" by blast
  from C5_load_never_fails [of unreadable_disk] b
  have 2: "get_cards unreadable_disk = Response 200 (JsonBody (JArr []))" by blast
  from C5_load_never_fails [of "disk_with_data (js ''not json'')"] c parse_garbage
  have 3: "get_cards (disk_with_data (js ''not json'')) = Response 200 (JsonBody (JArr []))" by blast
  from a b c 1 2 3 parse_garbage show ?thesis by blast
qed




section \<open>The log reader and the log catalog\<close>

lemma log_reader_rejects_bad_shape:
  "\<not> is_access_log filename \<Longrightarrow>
     get_logs_filename fs filename = (Response 400 (TextBody invalid_name_message), [])"
  by (auto simp: get_logs_filename_def is_access_log_def)

lemma traversal_name_shape: "is_access_log (js ''access-/../../../var/log/auth.log'')"
  by (simp add: is_access_log_def startsWith_def endsWith_def js_def)

lemma traversal_name_path:
  "path_join LOG_DIR (js ''access-/../../../var/log/auth.log'') = js ''/var/log/auth.log''"
  by (simp add: LOG_DIR_eq path_join_def path_normalize_def js_def)

text \<open>
  Claim C2. At the file name \<open>access-/../../../var/log/auth.log\<close> (sent as
  \<open>access-%2F..%2F..%2F..%2Fvar%2Flog%2Fauth.log\<close>) the shape check passes, although the
  name contains path separators: the handler reads \<open>/var/log/auth.log\<close>, outside the log
  directory, and answers with its text.
\<close>

theorem C2_log_reader_leaves_log_dir:
  assumes "readFileSync fs (js ''/var/log/auth.log'') = Inr secret"
  shows "get_logs_filename fs (js ''access-/../../../var/log/auth.log'')
           = (Response 200 (TextBody secret), [js ''/var/log/auth.log''])"
  using assms traversal_name_shape
  by (simp add: get_logs_filename_def is_access_log_def traversal_name_path)

theorem C2_log_reader_leaves_log_dir_example:
  "readFileSync disk_with_auth_log (js ''/var/log/auth.log'') = Inr (js ''sshd: session opened'')
   \<and> get_logs_filename disk_with_auth_log (js ''access-/../../../var/log/auth.log'')
       = (Response 200 (TextBody (js ''sshd: session opened'')), [js ''/var/log/auth.log''])"
proof -
  have r: "readFileSync disk_with_auth_log (js ''/var/log/auth.log'') = Inr (js ''sshd: session opened'')"
    by (simp add: readFileSync_def disk_with_auth_log_def)
  from C2_log_reader_leaves_log_dir [OF r] r show ?thesis by simp
qed










lemma replace_first_suffix:
  "46 \<notin> set d \<Longrightarrow> replace_first (d @ js ''.log'') (js ''.log'') [] = d"
proof (induction d)
  case Nil
  then show ?case by (simp add: js_def startsWith_def)
next
  case (Cons c d)
  then have "c \<noteq> 46" by auto
  then have "\<not> startsWith ((c # d) @ js ''.log'') (js ''.log'')"
    by (simp add: startsWith_def js_def)
  with Cons show ?case by (simp add: js_def)
qed

lemma log_date_of_name:
  "46 \<notin> set d \<Longrightarrow> log_date (js ''access-'' @ d @ js ''.log'') = d"
proof -
  assume d: "46 \<notin> set d"
  have "replace_first (js ''access-'' @ d @ js ''.log'') (js ''access-'') [] = d @ js ''.log''"
    by (simp add: js_def startsWith_def)
  with replace_first_suffix [OF d] show ?thesis by (simp add: log_date_def)
qed



section \<open>The logging middleware\<close>

text \<open>
  Claim C6, as the code has it. Once the body parser has passed the request on, a failing
  append of the log line ends the handling of the request: the logging middleware throws,
  Express skips every later layer up to the error handler, and the response is status 500
  with \<open>success: false\<close>, whatever the routes are; the file system is as the body parser
  left it. Only when the append succeeds does the request go on to the routes, with the
  line appended.
\<close>

theorem C6_log_failure_ends_request:
  assumes "bodyParser_json fs req = CallNext fs1 req1"
  shows "(\<forall>e. writeAccessLog now fs1 req1 = Inl e \<longrightarrow>
            handle_request bodyParser_json now routes fs req
              = (fs1, Response 500 (JsonBody (JObj [(js ''success'', JBool False),
                                                   (js ''message'', JStr server_error_message)]))))
       \<and> (\<forall>fs2. writeAccessLog now fs1 req1 = Inr fs2 \<longrightarrow>
            handle_request bodyParser_json now routes fs req = express_dispatch routes None fs2 req1)"
  using assms
  by (simp add: handle_request_def app_stack_def logging_middleware_def error_middleware_def)

lemma example_log_file: "getLogFileName (js ''access'') example_now = js ''/app/logs/access-2026-01-08.log''"
  by (simp add: getLogFileName_def LOG_DIR_eq example_now_def path_join_def path_normalize_def
      padStart2_def nat_digits.simps digit_char_def js_def)

lemma example_append_fails: "writeAccessLog example_now read_only_log_disk example_request = Inl EACCES"
  by (simp add: writeAccessLog_def example_log_file appendFileSync_def read_only_log_disk_def)

theorem C6_log_failure_ends_request_example:
  "pass_through read_only_log_disk example_request = CallNext read_only_log_disk example_request
   \<and> writeAccessLog example_now read_only_log_disk example_request = Inl EACCES
   \<and> handle_request pass_through example_now [get_cards_route] read_only_log_disk example_request
       = (read_only_log_disk, server_error_response)"
proof -
  have p: "pass_through read_only_log_disk example_request = CallNext read_only_log_disk example_request"
    by (simp add: pass_through_def)
  from C6_log_failure_ends_request [of pass_through read_only_log_disk example_request
      read_only_log_disk example_request example_now "[get_cards_route]"] example_append_fails p
  show ?thesis by (simp add: server_error_response_def)
qed

theorem C6_handler_not_reached:
  "writeAccessLog example_now read_only_log_disk example_request = Inl EACCES
   \<and> handle_request pass_through example_now [get_cards_route] read_only_log_disk example_request
       = (read_only_log_disk, server_error_response)
   \<and> express_dispatch [get_cards_route] None read_only_log_disk example_request
       = (read_only_log_disk, Response 200 (JsonBody (JArr [])))"
proof -
  have a: "handle_request pass_through example_now [get_cards_route] read_only_log_disk example_request
       = (read_only_log_disk, server_error_response)"
    using example_append_fails
    by (simp add: handle_request_def app_stack_def logging_middleware_def error_middleware_def
        pass_through_def server_error_response_def)
  have d: "readFileSync read_only_log_disk DATA_FILE = Inr (js ''[]'')"
    by (simp add: readFileSync_def read_only_log_disk_def disk_with_data_def DATA_FILE_eq js_def)
  have e: "JSON_parse (js ''[]'') = Some (JArr [])" by code_simp
  have b: "express_dispatch [get_cards_route] None read_only_log_disk example_request
       = (read_only_log_disk, Response 200 (JsonBody (JArr [])))"
    using d e
    by (simp add: get_cards_route_def route_def example_request_def url_path_def get_cards_def js_def)
  from a b example_append_fails show ?thesis by simp
qed

section \<open>Remote sync\<close>

lemma str_includes_here: "str_includes (p @ b) p"
proof (cases "p @ b")
  case Nil
  then show ?thesis by simp
next
  case (Cons c t)
  have "startsWith (p @ b) p" by (simp add: startsWith_def)
  with Cons show ?thesis by simp
qed

lemma str_includes_append: "str_includes (a @ p @ b) p"
proof (induction a)
  case Nil
  show ?case using str_includes_here by simp
next
  case (Cons c a)
  then show ?case by simp
qed

lemma api_error_404: "str_includes (api_error 404 body) (js ''[404]'')"
proof -
  have d: "nat_digits 404 = js ''404''"
    by (simp add: nat_digits.simps digit_char_def js_def)
  have "api_error 404 body = (js ''API '' @ [0x9519, 0x8BEF] @ js '' '') @ js ''[404]'' @ ([0xFF1A] @ body)"
    by (simp add: api_error_def d js_def)
  then show ?thesis using str_includes_append by metis
qed

lemma JSON_parse_empty: "JSON_parse [] = None"
  by (simp add: JSON_parse_def skip_ws_def)

lemma sha_not_in_commit_fields: "js ''sha'' \<notin> fst ` set (commit_fields env localData)"
  by (simp add: commit_fields_def js_def)

lemma push_commit_requests:
  "\<exists>out. push_commit env localData info =
     (out, [put_request env
              (if truthy info then
                 (case sha_of info of None \<Rightarrow> commit_fields env localData
                  | Some h \<Rightarrow> commit_fields env localData @ [(js ''sha'', h)])
               else commit_fields env localData)])"
  by (simp add: push_commit_def Let_def split: settled.splits)

lemma githubRequest_get:
  "githubRequest env (js ''GET'') (js ''contents/data.json'') None
     = (case remote env (get_request env) of
          NetworkError msg \<Rightarrow> Rejected msg
        | HttpResponse statusCode responseBody \<Rightarrow>
            if statusCode \<ge> 400 then Rejected (api_error statusCode responseBody)
            else (case JSON_parse (if responseBody = [] then js ''{}'' else responseBody) of
                    None \<Rightarrow> ThrownInCallback
                  | Some v \<Rightarrow> Resolved v))"
  by (simp add: githubRequest_def get_request_def)


text \<open>
  Claim C3. With a readable, non-empty local document: when the metadata fetch is answered
  with status 404, the payload of the create-or-update request consists of message, content
  and branch and has no \<open>sha\<close>; when it is answered with a status below 400 and a JSON
  object that has a property \<open>sha\<close>, the payload consists of the same three properties
  followed by \<open>sha\<close> with exactly that value.
\<close>

theorem C3_payload_sha:
  assumes "readFileSync fs DATA_FILE = Inr localData" and "localData \<noteq> []"
  shows "(\<forall>body. remote env (get_request env) = HttpResponse 404 body \<longrightarrow>
            (\<exists>out. sync env fs = (out, [get_request env, put_request env (commit_fields env localData)]))
            \<and> js ''sha'' \<notin> fst ` set (commit_fields env localData))
       \<and> (\<forall>st body info h.
            remote env (get_request env) = HttpResponse st body \<and> st < 400
            \<and> JSON_parse body = Some (JObj info) \<and> map_of info (js ''sha'') = Some h \<longrightarrow>
            (\<exists>out. sync env fs
                     = (out, [get_request env,
                              put_request env (commit_fields env localData @ [(js ''sha'', h)])])))"
proof (intro conjI allI impI)
  fix body
  assume r: "remote env (get_request env) = HttpResponse 404 body"
  from push_commit_requests [of env localData JNull]
  obtain out where "push_commit env localData JNull = (out, [put_request env (commit_fields env localData)])"
    by auto
  then show "\<exists>out. sync env fs = (out, [get_request env, put_request env (commit_fields env localData)])"
    using assms r by (simp add: sync_def githubRequest_get api_error_404)
next
  fix body
  show "js ''sha'' \<notin> fst ` set (commit_fields env localData)"
    by (rule sha_not_in_commit_fields)
next
  fix st body info h
  assume a: "remote env (get_request env) = HttpResponse st body \<and> st < 400
            \<and> JSON_parse body = Some (JObj info) \<and> map_of info (js ''sha'') = Some h"
  then have ne: "body \<noteq> []" using JSON_parse_empty by auto
  from push_commit_requests [of env localData "JObj info"] a
  obtain out where "push_commit env localData (JObj info)
      = (out, [put_request env (commit_fields env localData @ [(js ''sha'', h)])])"
    by auto
  then show "\<exists>out. sync env fs
                     = (out, [get_request env,
                              put_request env (commit_fields env localData @ [(js ''sha'', h)])])"
    using assms a ne by (simp add: sync_def githubRequest_get)
qed

lemma parse_sha_body:
  "JSON_parse ([123, 34] @ js ''sha'' @ [34, 58, 34] @ js ''abc123'' @ [34, 125])
     = Some (JObj [(js ''sha'', JStr (js ''abc123''))])"
  by code_simp

lemma example_local: "readFileSync (disk_with_data (js ''[]'')) DATA_FILE = Inr (js ''[]'')"
  by (simp add: readFileSync_def disk_with_data_def)

theorem C3_payload_sha_example:
  "readFileSync (disk_with_data (js ''[]'')) DATA_FILE = Inr (js ''[]'') \<and> js ''[]'' \<noteq> []
   \<and> remote (example_env remote_without_file) (get_request (example_env remote_without_file))
       = HttpResponse 404 (js ''{}'')
   \<and> snd (sync (example_env remote_without_file) (disk_with_data (js ''[]'')))
       = [get_request (example_env remote_without_file),
          put_request (example_env remote_without_file)
            (commit_fields (example_env remote_without_file) (js ''[]''))]
   \<and> remote (example_env remote_with_file) (get_request (example_env remote_with_file))
       = HttpResponse 200 ([123, 34] @ js ''sha'' @ [34, 58, 34] @ js ''abc123'' @ [34, 125])
   \<and> map_of [(js ''sha'', JStr (js ''abc123''))] (js ''sha'') = Some (JStr (js ''abc123''))
   \<and> snd (sync (example_env remote_with_file) (disk_with_data (js ''[]'')))
       = [get_request (example_env remote_with_file),
          put_request (example_env remote_with_file)
            (commit_fields (example_env remote_with_file) (js ''[]'')
             @ [(js ''sha'', JStr (js ''abc123''))])]"
proof -
  have ne: "js ''[]'' \<noteq> []" by (simp add: js_def)
  have r1: "remote (example_env remote_without_file) (get_request (example_env remote_without_file))
       = HttpResponse 404 (js ''{}'')"
    by (simp add: example_env_def remote_without_file_def get_request_def)
  have r2: "remote (example_env remote_with_file) (get_request (example_env remote_with_file))
       = HttpResponse 200 ([123, 34] @ js ''sha'' @ [34, 58, 34] @ js ''abc123'' @ [34, 125])"
    by (simp add: example_env_def remote_with_file_def get_request_def)
  have m: "map_of [(js ''sha'', JStr (js ''abc123''))] (js ''sha'') = Some (JStr (js ''abc123''))"
    by simp
  note t1 = C3_payload_sha [OF example_local ne, of "example_env remote_without_file"]
  note t2 = C3_payload_sha [OF example_local ne, of "example_env remote_with_file"]
  from t1 r1 have s1: "snd (sync (example_env remote_without_file) (disk_with_data (js ''[]'')))
       = [get_request (example_env remote_without_file),
          put_request (example_env remote_without_file)
            (commit_fields (example_env remote_without_file) (js ''[]''))]"
    by (metis snd_conv)
  have "(200::nat) < 400" by simp
  with t2 r2 parse_sha_body m
  have "\<exists>out. sync (example_env remote_with_file) (disk_with_data (js ''[]''))
       = (out, [get_request (example_env remote_with_file),
          put_request (example_env remote_with_file)
            (commit_fields (example_env remote_with_file) (js ''[]'')
             @ [(js ''sha'', JStr (js ''abc123''))])])"
    by blast
  then have s2: "snd (sync (example_env remote_with_file) (disk_with_data (js ''[]'')))
       = [get_request (example_env remote_with_file),
          put_request (example_env remote_with_file)
            (commit_fields (example_env remote_with_file) (js ''[]'')
             @ [(js ''sha'', JStr (js ''abc123''))])]"
    by (metis snd_conv)
  from example_local ne r1 r2 m s1 s2 show ?thesis by blast
qed













section \<open>The log analyzer\<close>

text \<open>
  Claim C7. On the three-line example the analyzer counts 3 lines and 2 distinct addresses,
  with 1.2.3.4 seen twice and 5.6.7.8 once, and the panel ranks 1.2.3.4 before 5.6.7.8.
\<close>

theorem C7_log_analyzer_example:
  "parseAccessLogStats example_log
     = \<lparr>total = 3, unique = 2, ipCounts = [(js ''1.2.3.4'', 2), (js ''5.6.7.8'', 1)]\<rparr>
   \<and> sortedIps (parseAccessLogStats example_log) = [(js ''1.2.3.4'', 2), (js ''5.6.7.8'', 1)]"
  by code_simp

section \<open>Properties of the save handler\<close>

lemma fold_max_eq_Max: "fold max xs (x::int) = Max (insert x (set xs))"
proof (induction xs arbitrary: x)
  case Nil
  then show ?case by simp
next
  case (Cons y ys)
  have "fold max (y # ys) x = Max (insert (max y x) (set ys))"
    using Cons.IH [of "max y x"] by simp
  also have "\<dots> = Max (insert x (set (y # ys)))"
  proof (cases "set ys = {}")
    case True
    then show ?thesis by (simp add: max.commute)
  next
    case False
    then show ?thesis by (simp add: max.assoc max.commute max.left_commute)
  qed
  finally show ?case .
qed

lemma next_card_id_nonempty:
  "cards \<noteq> [] \<Longrightarrow> next_card_id cards = Max (card_id ` set cards) + 1"
  by (cases cards) (simp_all add: next_card_id_def fold_max_eq_Max)

text \<open>
  Claim C9. When the form's id field is empty (a new card) and title and link are filled in,
  the handler appends one card to the fetched collection. Its id is 1 for an empty
  collection and the maximum existing id plus 1 otherwise, whatever the number of cards.
  Ids are taken to be safe integers, where the model's arithmetic is that of JavaScript.
\<close>

theorem C9_new_card_id_is_max_plus_one:
  assumes "title \<noteq> []" and "url \<noteq> []"
    and "\<forall>c \<in> set cards. is_safe_integer (card_id c)"
  shows "saveCardBtn_click [] title url color cards =
           Some (cards @ [\<lparr>card_id = (if cards = [] then 1 else Max (card_id ` set cards) + 1),
                            card_title = title, card_url = url, card_color = color\<rparr>])"
proof (cases "cards = []")
  case True
  with assms show ?thesis by (simp add: saveCardBtn_click_def next_card_id_def)
next
  case False
  with assms show ?thesis by (simp add: saveCardBtn_click_def next_card_id_nonempty)
qed

theorem C9_new_card_id_example:
  "js ''T'' \<noteq> [] \<and> js ''u'' \<noteq> [] \<and> is_safe_integer 1 \<and> is_safe_integer 3
   \<and> map card_id (the (saveCardBtn_click [] (js ''T'') (js ''u'') (js ''blue'')
         [\<lparr>card_id = 1, card_title = js ''a'', card_url = js ''x'', card_color = js ''red''\<rparr>,
          \<lparr>card_id = 3, card_title = js ''b'', card_url = js ''y'', card_color = js ''red''\<rparr>]))
       = [1, 3, 4]
   \<and> map card_id (the (saveCardBtn_click [] (js ''T'') (js ''u'') (js ''blue'') [])) = [1]"
  using C9_new_card_id_is_max_plus_one [of "js ''T''" "js ''u''"
      "[\<lparr>card_id = 1, card_title = js ''a'', card_url = js ''x'', card_color = js ''red''\<rparr>,
        \<lparr>card_id = 3, card_title = js ''b'', card_url = js ''y'', card_color = js ''red''\<rparr>]"
      "js ''blue''"]
    C9_new_card_id_is_max_plus_one [of "js ''T''" "js ''u''" "[]" "js ''blue''"]
  by (simp add: js_def is_safe_integer_def)

end
